theory Spec2Isabelle
  imports Complex_Main "HOL-Library.AList" "HOL-Library.Multiset"
begin

section \<open>Resource vectors (numpy arrays of one dimension)\<close>

text \<open>
  A resource vector is a list of reals; the floating-point numbers of the source are
  modelled by exact reals. All vectors of one simulation have the same length \<open>D\<close>
  (every \<open>zeros_like\<close> copies the length of a capacity or a prototype), so the
  elementwise operations are taken over the zipped components.
\<close>

type_synonym ResourceVector = "real list"

definition vadd :: "ResourceVector \<Rightarrow> ResourceVector \<Rightarrow> ResourceVector" where
  "vadd a b = map2 (+) a b"

definition vsub :: "ResourceVector \<Rightarrow> ResourceVector \<Rightarrow> ResourceVector" where
  "vsub a b = map2 (-) a b"

definition zeros_like :: "ResourceVector \<Rightarrow> ResourceVector" where
  "zeros_like v = map (\<lambda>_. 0) v"

text \<open>\<open>np.all(a <= b)\<close>: true on the empty vector.\<close>

definition np_all_le :: "ResourceVector \<Rightarrow> ResourceVector \<Rightarrow> bool" where
  "np_all_le a b = list_all (\<lambda>(x, y). x \<le> y) (zip a b)"

text \<open>
  \<open>np.sum(vs, axis=0)\<close>: the componentwise sum of a list of vectors. On the empty
  list numpy gives the scalar \<open>0.0\<close>; it is modelled by the empty vector (with no
  node nothing is ever placed, and every share computed against it is 0 either way).
\<close>

definition np_sum_axis0 :: "ResourceVector list \<Rightarrow> ResourceVector" where
  "np_sum_axis0 vs = (case vs of [] \<Rightarrow> [] | v # rest \<Rightarrow> foldl vadd v rest)"

text \<open>
  A numpy division under \<open>np.errstate(divide='ignore', invalid='ignore')\<close>: a zero
  divisor gives \<open>inf\<close>, \<open>-inf\<close> or \<open>nan\<close>, anything else a finite quotient.
\<close>

datatype npfloat = Finite real | PosInf | NegInf | NaN

definition np_divide :: "real \<Rightarrow> real \<Rightarrow> npfloat" where
  "np_divide x y =
     (if y \<noteq> 0 then Finite (x / y)
      else if x > 0 then PosInf
      else if x < 0 then NegInf
      else NaN)"

text \<open>\<open>shares[~np.isfinite(shares)] = 0\<close>\<close>

fun zero_if_not_finite :: "npfloat \<Rightarrow> real" where
  "zero_if_not_finite (Finite q) = q"
| "zero_if_not_finite PosInf = 0"
| "zero_if_not_finite NegInf = 0"
| "zero_if_not_finite NaN = 0"

definition finite_shares :: "ResourceVector \<Rightarrow> ResourceVector \<Rightarrow> real list" where
  "finite_shares U R = map (\<lambda>(u, r). zero_if_not_finite (np_divide u r)) (zip U R)"

text \<open>\<open>np.max\<close> raises \<open>ValueError\<close> on an empty array: \<open>None\<close> here.\<close>

definition np_max :: "real list \<Rightarrow> real option" where
  "np_max xs = (case xs of [] \<Rightarrow> None | x # rest \<Rightarrow> Some (foldl max x rest))"

section \<open>Entities\<close>

datatype TaskStatus = PENDING | RUNNING | FINISHED

record Task =
  t_id :: int
  app_id :: int
  requirements :: ResourceVector
  duration :: real
  status :: TaskStatus
  start_time :: real
  node_id :: int

definition elapsed_time :: "Task \<Rightarrow> real \<Rightarrow> real" where
  "elapsed_time task now =
     (if status task = RUNNING \<and> start_time task \<ge> 0 then now - start_time task else 0)"

text \<open>
  A Python dict is an association list in insertion order: \<open>d[k] = v\<close> is
  \<open>AList.update\<close> (in place for a present key, at the end for a new one),
  \<open>del d[k]\<close> is \<open>AList.delete\<close>, \<open>k in d\<close> is \<open>map_of d k \<noteq> None\<close>.
\<close>

type_synonym 'v pydict = "(int \<times> 'v) list"

record Application =
  a_id :: int
  proto_requirements :: ResourceVector
  proto_duration :: real
  pending_tasks :: "Task list"
  a_running_tasks :: "Task pydict"
  U_i :: ResourceVector
  s_i :: real

record Node =
  n_id :: int
  R_k :: ResourceVector
  C_k :: ResourceVector
  n_running_tasks :: "Task pydict"

text \<open>The exceptions of the source, one constructor for each place that raises.\<close>

datatype error =
    AddTaskValueError int int
  | RemoveTaskValueError int int
  | KeyError int
  | IndexError
  | MaxOfEmptyValueError
  | OutOfFuel

text \<open>\<open>Application.update_dominant_share\<close>\<close>

definition update_dominant_share :: "Application \<Rightarrow> ResourceVector \<Rightarrow> Application" where
  "update_dominant_share app total_cluster_resources =
     (let shares = finite_shares (U_i app) total_cluster_resources
      in app\<lparr>s_i := (case np_max shares of Some m \<Rightarrow> m | None \<Rightarrow> 0)\<rparr>)"

text \<open>\<open>Node.can_fit\<close>, \<open>Node.add_task\<close>, \<open>Node.remove_task\<close>\<close>

definition can_fit :: "Node \<Rightarrow> ResourceVector \<Rightarrow> bool" where
  "can_fit node task_req = np_all_le (vadd (C_k node) task_req) (R_k node)"

definition add_task :: "Node \<Rightarrow> Task \<Rightarrow> error + Node" where
  "add_task node task =
     (if \<not> can_fit node (requirements task)
      then Inl (AddTaskValueError (t_id task) (n_id node))
      else Inr (node\<lparr>C_k := vadd (C_k node) (requirements task),
                      n_running_tasks := AList.update (t_id task) task (n_running_tasks node)\<rparr>))"

definition remove_task :: "Node \<Rightarrow> Task \<Rightarrow> error + Node" where
  "remove_task node task =
     (if map_of (n_running_tasks node) (t_id task) = None
      then Inl (RemoveTaskValueError (t_id task) (n_id node))
      else Inr (node\<lparr>C_k := vsub (C_k node) (requirements task),
                      n_running_tasks := AList.delete (t_id task) (n_running_tasks node)\<rparr>))"

section \<open>Events\<close>

datatype Payload =
    SubmitEvent int int
  | TaskFinishEvent int int int
  | SchedulerRunEvent bool

record SimEvent =
  time :: real
  priority :: nat
  counter :: nat
  payload :: Payload

text \<open>\<open>SimEvent.__lt__\<close>\<close>

definition event_lt :: "SimEvent \<Rightarrow> SimEvent \<Rightarrow> bool" where
  "event_lt self other =
     (if time self \<noteq> time other then time self < time other
      else if priority self \<noteq> priority other then priority self < priority other
      else counter self < counter other)"

text \<open>The class defaults of the field \<open>priority\<close>.\<close>

fun default_priority :: "Payload \<Rightarrow> nat" where
  "default_priority (SubmitEvent _ _) = 1"
| "default_priority (TaskFinishEvent _ _ _) = 1"
| "default_priority (SchedulerRunEvent _) = 2"

fun is_SchedulerRunEvent :: "SimEvent \<Rightarrow> bool" where
  "is_SchedulerRunEvent e = (case payload e of SchedulerRunEvent _ \<Rightarrow> True | _ \<Rightarrow> False)"

text \<open>
  \<open>heapq\<close> is modelled by its contract: the heap is a bag of events kept in a list,
  \<open>heappush\<close> adds an event and \<open>heappop\<close> takes out the least one under
  \<open>__lt__\<close>.
\<close>

fun least_event :: "SimEvent \<Rightarrow> SimEvent list \<Rightarrow> SimEvent" where
  "least_event cur [] = cur"
| "least_event cur (e # es) = least_event (if event_lt e cur then e else cur) es"

definition heappush :: "SimEvent list \<Rightarrow> SimEvent \<Rightarrow> SimEvent list" where
  "heappush q e = q @ [e]"

definition heappop :: "SimEvent list \<Rightarrow> (SimEvent \<times> SimEvent list) option" where
  "heappop q =
     (case q of [] \<Rightarrow> None
      | e # es \<Rightarrow> (let m = least_event e es in Some (m, remove1 m q)))"

section \<open>The simulation state\<close>

record Simulation =
  current_time :: real
  event_queue :: "SimEvent list"
  nodes :: "Node pydict"
  apps :: "Application pydict"
  R_total :: ResourceVector
  task_id_counter :: int
  all_tasks :: "Task pydict"
  ALPHA :: real
  BETA :: real
  EPSILON :: real
  event_counter :: nat

text \<open>
  The constructor of an event draws its \<open>counter\<close> from the module-wide
  \<open>event_counter\<close>, which is part of the state here.
\<close>

definition new_event :: "Simulation \<Rightarrow> real \<Rightarrow> Payload \<Rightarrow> SimEvent \<times> Simulation" where
  "new_event sim t p =
     (\<lparr>time = t, priority = default_priority p, counter = event_counter sim, payload = p\<rparr>,
      sim\<lparr>event_counter := Suc (event_counter sim)\<rparr>)"

definition push_new_event :: "Simulation \<Rightarrow> real \<Rightarrow> Payload \<Rightarrow> Simulation" where
  "push_new_event sim t p =
     (let (evt, sim') = new_event sim t p
      in sim'\<lparr>event_queue := heappush (event_queue sim') evt\<rparr>)"

text \<open>\<open>Simulation._calculate_s_i\<close>\<close>

definition calculate_s_i :: "Simulation \<Rightarrow> ResourceVector \<Rightarrow> real" where
  "calculate_s_i sim U_vector =
     (let shares = finite_shares U_vector (R_total sim)
      in case np_max shares of Some m \<Rightarrow> m | None \<Rightarrow> 0)"

text \<open>\<open>Simulation._calculate_task_cost\<close>\<close>

definition calculate_task_cost :: "Simulation \<Rightarrow> Task \<Rightarrow> error + real" where
  "calculate_task_cost sim task =
     (let t_p = elapsed_time task (current_time sim)
      in if t_p \<le> 0 then Inr 0
         else (case np_max (finite_shares (requirements task) (R_total sim)) of
                 None \<Rightarrow> Inl MaxOfEmptyValueError
               | Some max_share \<Rightarrow> if max_share = 0 then Inr 0 else Inr (t_p * max_share)))"

section \<open>Submission and finish handlers\<close>

text \<open>\<open>Simulation.trigger_scheduler_run\<close>\<close>

definition trigger_scheduler_run :: "Simulation \<Rightarrow> bool \<Rightarrow> Simulation" where
  "trigger_scheduler_run sim allocation_made =
     (if \<not> list_ex (\<lambda>e. is_SchedulerRunEvent e \<and> time e = current_time sim) (event_queue sim)
      then push_new_event sim (current_time sim) (SchedulerRunEvent allocation_made)
      else sim)"

text \<open>
  A task object is shared by the global map and by the list or dict that holds it.
  The containers hold task values here, so a write to a field of a task is also made to
  its copy in the global map, when the map has the task.
\<close>

definition sync_task :: "Task \<Rightarrow> Task pydict \<Rightarrow> Task pydict" where
  "sync_task task d =
     (case map_of d (t_id task) of None \<Rightarrow> d | Some _ \<Rightarrow> AList.update (t_id task) task d)"

text \<open>\<open>Simulation.handle_submit_event\<close>: the body of the loop, then the handler.\<close>

fun submit_tasks :: "nat \<Rightarrow> int \<Rightarrow> Application \<Rightarrow> Simulation \<Rightarrow> Application \<times> Simulation" where
  "submit_tasks 0 app_key app sim = (app, sim)"
| "submit_tasks (Suc n) app_key app sim =
     (let task_id = task_id_counter sim;
          new_task = \<lparr>t_id = task_id, app_id = app_key,
                      requirements = proto_requirements app, duration = proto_duration app,
                      status = PENDING, start_time = -1, node_id = -1\<rparr>
      in submit_tasks n app_key
           (app\<lparr>pending_tasks := pending_tasks app @ [new_task]\<rparr>)
           (sim\<lparr>task_id_counter := task_id + 1,
                all_tasks := AList.update task_id new_task (all_tasks sim)\<rparr>))"

definition handle_submit_event :: "Simulation \<Rightarrow> int \<Rightarrow> int \<Rightarrow> error + Simulation" where
  "handle_submit_event sim app_key num_tasks =
     (case map_of (apps sim) app_key of
        None \<Rightarrow> Inl (KeyError app_key)
      | Some app \<Rightarrow>
          (let (app', sim') = submit_tasks (nat num_tasks) app_key app sim
           in Inr (sim'\<lparr>apps := AList.update app_key app' (apps sim')\<rparr>)))"

text \<open>
  \<open>Simulation.handle_task_finish_event\<close>. The \<open>ValueError\<close> of
  \<open>Node.remove_task\<close> is caught (the state is as before); the \<open>KeyError\<close> of
  \<open>del app.running_tasks[task_id]\<close> is not.
\<close>

definition handle_task_finish_event :: "Simulation \<Rightarrow> int \<Rightarrow> int \<Rightarrow> int \<Rightarrow> error + Simulation" where
  "handle_task_finish_event sim task_id app_key node_key =
     (case map_of (all_tasks sim) task_id of
        None \<Rightarrow> Inr sim
      | Some task \<Rightarrow>
          (case map_of (nodes sim) node_key of
             None \<Rightarrow> Inl (KeyError node_key)
           | Some node \<Rightarrow>
               (case map_of (apps sim) app_key of
                  None \<Rightarrow> Inl (KeyError app_key)
                | Some app \<Rightarrow>
                    (case remove_task node task of
                       Inl e \<Rightarrow> Inr sim
                     | Inr node' \<Rightarrow>
                         if map_of (a_running_tasks app) task_id = None
                         then Inl (KeyError task_id)
                         else
                           (let app' = update_dominant_share
                                  (app\<lparr>U_i := vsub (U_i app) (requirements task),
                                       a_running_tasks := AList.delete task_id (a_running_tasks app)\<rparr>)
                                  (R_total sim)
                            in Inr (sim\<lparr>nodes := AList.update node_key node' (nodes sim),
                                        apps := AList.update app_key app' (apps sim),
                                        all_tasks := AList.delete task_id (all_tasks sim)\<rparr>))))))"

section \<open>Placement\<close>

text \<open>
  \<open>Simulation.find_best_node\<close>: first fit over \<open>sorted(self.nodes.keys())\<close>; the
  keys of a dict are distinct, so this is a scan of the entries in key order.
\<close>

definition find_best_node :: "Simulation \<Rightarrow> ResourceVector \<Rightarrow> (int \<times> Node) option" where
  "find_best_node sim task_requirements =
     find (\<lambda>(node_key, node). can_fit node task_requirements) (sort_key fst (nodes sim))"

text \<open>
  The placement of the head pending task of an application on a node: the same
  statements in the direct branch and at the end of the preemption branch of
  \<open>run_scheduler_cycle\<close>. The application and the node are read from the state, as
  the objects of the source are.
\<close>

definition place_head :: "Simulation \<Rightarrow> int \<Rightarrow> int \<Rightarrow> error + Simulation" where
  "place_head sim app_key node_key =
     (case map_of (apps sim) app_key of
        None \<Rightarrow> Inl (KeyError app_key)
      | Some app \<Rightarrow>
          (case map_of (nodes sim) node_key of
             None \<Rightarrow> Inl (KeyError node_key)
           | Some node \<Rightarrow>
               (case pending_tasks app of
                  [] \<Rightarrow> Inl IndexError
                | head # rest \<Rightarrow>
                    (let task = head\<lparr>status := RUNNING, start_time := current_time sim,
                                     node_id := n_id node\<rparr>
                     in case add_task node task of
                          Inl e \<Rightarrow> Inl e
                        | Inr node' \<Rightarrow>
                            (let app' = update_dominant_share
                                   (app\<lparr>pending_tasks := rest,
                                        U_i := vadd (U_i app) (requirements task),
                                        a_running_tasks :=
                                          AList.update (t_id task) task (a_running_tasks app)\<rparr>)
                                   (R_total sim);
                                 sim' = sim\<lparr>nodes := AList.update node_key node' (nodes sim),
                                            apps := AList.update app_key app' (apps sim),
                                            all_tasks := sync_task task (all_tasks sim)\<rparr>
                             in Inr (push_new_event sim' (current_time sim + duration task)
                                       (TaskFinishEvent (t_id task) (a_id app) (n_id node))))))))"

section \<open>The preemption evaluator\<close>

text \<open>Python's \<open>max(xs, key=f)\<close> on a non-empty sequence: the first greatest element.\<close>

fun py_max_key :: "('a \<Rightarrow> real) \<Rightarrow> 'a \<Rightarrow> 'a list \<Rightarrow> 'a" where
  "py_max_key f cur [] = cur"
| "py_max_key f cur (x # xs) = py_max_key f (if f x > f cur then x else cur) xs"

fun task_costs :: "Simulation \<Rightarrow> Task list \<Rightarrow> error + (real \<times> Task) list" where
  "task_costs sim [] = Inr []"
| "task_costs sim (task # ts) =
     (case calculate_task_cost sim task of
        Inl e \<Rightarrow> Inl e
      | Inr c \<Rightarrow> (case task_costs sim ts of Inl e \<Rightarrow> Inl e | Inr cs \<Rightarrow> Inr ((c, task) # cs)))"

text \<open>Step 5 and 6: the loop that builds \<open>tau_Pk\<close> until the winner's task fits.\<close>

fun build_tau ::
  "Node \<Rightarrow> ResourceVector \<Rightarrow> (real \<times> Task) list \<Rightarrow> Task list \<Rightarrow> ResourceVector \<Rightarrow> real
     \<Rightarrow> (Task list \<times> ResourceVector \<times> real) option" where
  "build_tau node D_W [] tau_Pk freed_resources current_total_cost = None"
| "build_tau node D_W ((cost, task) # rest) tau_Pk freed_resources current_total_cost =
     (let tau' = tau_Pk @ [task];
          freed' = vadd freed_resources (requirements task);
          cost' = current_total_cost + cost
      in if np_all_le (vadd (vsub (C_k node) freed') D_W) (R_k node)
         then Some (tau', freed', cost')
         else build_tau node D_W rest tau' freed' cost')"

text \<open>Steps 3 to 11 for one node: the candidate \<open>(koszt, tau_Pk)\<close> of the node, if any.\<close>

definition node_candidate ::
  "Simulation \<Rightarrow> Application \<Rightarrow> ResourceVector \<Rightarrow> Application \<Rightarrow> Node
     \<Rightarrow> error + (real \<times> Task list) option" where
  "node_candidate sim winner_app D_W victim_app node =
     (let victim_tasks_on_node =
            filter (\<lambda>task. app_id task = a_id victim_app) (map snd (n_running_tasks node))
      in if victim_tasks_on_node = [] then Inr None
         else
           (case task_costs sim victim_tasks_on_node of
              Inl e \<Rightarrow> Inl e
            | Inr tasks_with_cost \<Rightarrow>
                (case build_tau node D_W (sort_key fst tasks_with_cost) []
                        (zeros_like (R_total sim)) 0 of
                   None \<Rightarrow> Inr None
                 | Some (tau_Pk, freed_resources, koszt) \<Rightarrow>
                     (let U_W_prime = vadd (U_i winner_app) D_W;
                          U_P_prime = vsub (U_i victim_app) freed_resources;
                          s_W_prime = calculate_s_i sim U_W_prime;
                          s_P_prime = calculate_s_i sim U_P_prime
                      in if \<not> (s_P_prime > s_W_prime) then Inr None
                         else
                           (let zysk = s_i victim_app - s_P_prime
                            in if \<not> (zysk > EPSILON sim) then Inr None
                               else if zysk * ALPHA sim > koszt * BETA sim
                               then Inr (Some (koszt, tau_Pk))
                               else Inr None)))))"

text \<open>The loop over the nodes, with \<open>best_candidate\<close> as accumulator.\<close>

fun scan_nodes ::
  "Simulation \<Rightarrow> Application \<Rightarrow> ResourceVector \<Rightarrow> Application \<Rightarrow> (int \<times> Node) list
     \<Rightarrow> (real \<times> Task list \<times> int) option \<Rightarrow> error + (real \<times> Task list \<times> int) option" where
  "scan_nodes sim winner_app D_W victim_app [] best_candidate = Inr best_candidate"
| "scan_nodes sim winner_app D_W victim_app ((node_key, node) # rest) best_candidate =
     (case node_candidate sim winner_app D_W victim_app node of
        Inl e \<Rightarrow> Inl e
      | Inr None \<Rightarrow> scan_nodes sim winner_app D_W victim_app rest best_candidate
      | Inr (Some (koszt, tau_Pk)) \<Rightarrow>
          scan_nodes sim winner_app D_W victim_app rest
            (case best_candidate of
               None \<Rightarrow> Some (koszt, tau_Pk, node_key)
             | Some (best_cost, best_tau, best_key) \<Rightarrow>
                 if koszt < best_cost then Some (koszt, tau_Pk, node_key)
                 else Some (best_cost, best_tau, best_key)))"

text \<open>
  \<open>Simulation.find_preemption_candidate\<close>: the victim set and the key of the node,
  or \<open>None\<close> for \<open>(None, None)\<close>.
\<close>

definition find_preemption_candidate ::
  "Simulation \<Rightarrow> Application \<Rightarrow> Task \<Rightarrow> error + (Task list \<times> int) option" where
  "find_preemption_candidate sim winner_app winner_task =
     (let s_W = s_i winner_app; D_W = requirements winner_task
      in case filter (\<lambda>app. a_running_tasks app \<noteq> []) (map snd (apps sim)) of
           [] \<Rightarrow> Inr None
         | a # as \<Rightarrow>
             (let victim_app = py_max_key s_i a as; s_P = s_i victim_app
              in if \<not> (s_P > s_W) then Inr None
                 else
                   (case scan_nodes sim winner_app D_W victim_app (nodes sim) None of
                      Inl e \<Rightarrow> Inl e
                    | Inr None \<Rightarrow> Inr None
                    | Inr (Some (koszt, tau_Pk, node_key)) \<Rightarrow> Inr (Some (tau_Pk, node_key)))))"

section \<open>The scheduling cycle\<close>

text \<open>
  The loop over \<open>zestaw_ofiar\<close> in the preemption branch: each victim leaves the
  node and the running map of its application, and goes to the head of the pending list.
\<close>

fun preempt_victims ::
  "Simulation \<Rightarrow> int \<Rightarrow> int \<Rightarrow> Task list \<Rightarrow> ResourceVector \<Rightarrow> error + (Simulation \<times> ResourceVector)" where
  "preempt_victims sim node_key victim_key [] zasoby_zwolnione = Inr (sim, zasoby_zwolnione)"
| "preempt_victims sim node_key victim_key (ofiara_task # rest) zasoby_zwolnione =
     (case map_of (nodes sim) node_key of
        None \<Rightarrow> Inl (KeyError node_key)
      | Some wezel_ofiary \<Rightarrow>
          (case remove_task wezel_ofiary ofiara_task of
             Inl e \<Rightarrow> Inl e
           | Inr node' \<Rightarrow>
               (case map_of (apps sim) victim_key of
                  None \<Rightarrow> Inl (KeyError victim_key)
                | Some aplikacja_ofiary \<Rightarrow>
                    if map_of (a_running_tasks aplikacja_ofiary) (t_id ofiara_task) = None
                    then Inl (KeyError (t_id ofiara_task))
                    else
                      (let ofiara' = ofiara_task\<lparr>status := PENDING, start_time := -1, node_id := -1\<rparr>;
                           app' = aplikacja_ofiary
                             \<lparr>a_running_tasks :=
                                AList.delete (t_id ofiara_task) (a_running_tasks aplikacja_ofiary),
                              pending_tasks := ofiara' # pending_tasks aplikacja_ofiary\<rparr>
                       in preempt_victims
                            (sim\<lparr>nodes := AList.update node_key node' (nodes sim),
                                 apps := AList.update victim_key app' (apps sim),
                                 all_tasks := sync_task ofiara' (all_tasks sim)\<rparr>)
                            node_key victim_key rest
                            (vadd zasoby_zwolnione (requirements ofiara_task))))))"

text \<open>The preemption branch: the victims leave, then the winner's head task is placed.\<close>

definition apply_preemption :: "Simulation \<Rightarrow> int \<Rightarrow> Task list \<Rightarrow> int \<Rightarrow> error + Simulation" where
  "apply_preemption sim app_key zestaw_ofiar node_key =
     (case zestaw_ofiar of
        [] \<Rightarrow> Inl IndexError
      | first # _ \<Rightarrow>
          (let victim_app_id = app_id first
           in case map_of (apps sim) victim_app_id of
                None \<Rightarrow> Inl (KeyError victim_app_id)
              | Some _ \<Rightarrow>
                  (case preempt_victims sim node_key victim_app_id zestaw_ofiar
                          (zeros_like (R_total sim)) of
                     Inl e \<Rightarrow> Inl e
                   | Inr (sim1, zasoby_zwolnione) \<Rightarrow>
                       (case map_of (apps sim1) victim_app_id of
                          None \<Rightarrow> Inl (KeyError victim_app_id)
                        | Some aplikacja_ofiary \<Rightarrow>
                            (let app' = update_dominant_share
                                   (aplikacja_ofiary
                                      \<lparr>U_i := vsub (U_i aplikacja_ofiary) zasoby_zwolnione\<rparr>)
                                   (R_total sim1)
                             in place_head
                                  (sim1\<lparr>apps := AList.update victim_app_id app' (apps sim1)\<rparr>)
                                  app_key node_key)))))"

text \<open>What one round of the cycle did; \<open>alokacja_w_rundzie\<close> is read off it.\<close>

datatype round_outcome =
    NoPendingApps
  | DirectPlacement int int
  | Preemption int nat
  | NoAllocation

fun alokacja_w_rundzie :: "round_outcome \<Rightarrow> bool" where
  "alokacja_w_rundzie (DirectPlacement _ _) = True"
| "alokacja_w_rundzie (Preemption _ _) = True"
| "alokacja_w_rundzie NoPendingApps = False"
| "alokacja_w_rundzie NoAllocation = False"

text \<open>
  The \<open>for\<close> loop over the sorted applications. Nothing is written before the
  \<open>break\<close>, so the application objects of the sorted list are those of the state.
\<close>

fun visit_apps :: "Simulation \<Rightarrow> (int \<times> Application) list \<Rightarrow> error + (Simulation \<times> round_outcome)" where
  "visit_apps sim [] = Inr (sim, NoAllocation)"
| "visit_apps sim ((app_key, app) # rest) =
     (case pending_tasks app of
        [] \<Rightarrow> visit_apps sim rest
      | zadanie_do_uruchomienia # _ \<Rightarrow>
          (case find_best_node sim (requirements zadanie_do_uruchomienia) of
             Some (node_key, wezel_cel) \<Rightarrow>
               (case place_head sim app_key node_key of
                  Inl e \<Rightarrow> Inl e
                | Inr sim' \<Rightarrow> Inr (sim', DirectPlacement app_key node_key))
           | None \<Rightarrow>
               (case find_preemption_candidate sim app zadanie_do_uruchomienia of
                  Inl e \<Rightarrow> Inl e
                | Inr None \<Rightarrow> visit_apps sim rest
                | Inr (Some (zestaw_ofiar, node_key)) \<Rightarrow>
                    if zestaw_ofiar \<noteq> []
                    then (case apply_preemption sim app_key zestaw_ofiar node_key of
                            Inl e \<Rightarrow> Inl e
                          | Inr sim' \<Rightarrow> Inr (sim', Preemption app_key (length zestaw_ofiar)))
                    else visit_apps sim rest)))"

text \<open>One pass of the body of \<open>while True\<close>.\<close>

definition run_round :: "Simulation \<Rightarrow> error + (Simulation \<times> round_outcome)" where
  "run_round sim =
     (let pending_apps = filter (\<lambda>(app_key, app). pending_tasks app \<noteq> []) (apps sim)
      in if pending_apps = [] then Inr (sim, NoPendingApps)
         else visit_apps sim (sort_key (\<lambda>(app_key, app). s_i app) pending_apps))"

text \<open>
  \<open>Simulation.run_scheduler_cycle\<close>, with fuel for the \<open>while True\<close> loop: the
  fuel bounds the number of rounds, and \<open>OutOfFuel\<close> says the loop had not ended within
  it. Beside the result stands the outcome of every round that was run.
\<close>

fun scheduler_cycle_rounds :: "nat \<Rightarrow> Simulation \<Rightarrow> round_outcome list \<times> (error + Simulation)" where
  "scheduler_cycle_rounds 0 sim = ([], Inl OutOfFuel)"
| "scheduler_cycle_rounds (Suc fuel) sim =
     (case run_round sim of
        Inl e \<Rightarrow> ([], Inl e)
      | Inr (sim', outcome) \<Rightarrow>
          if alokacja_w_rundzie outcome
          then (let (outcomes, result) = scheduler_cycle_rounds fuel sim'
                in (outcome # outcomes, result))
          else ([outcome], Inr sim'))"

definition run_scheduler_cycle :: "nat \<Rightarrow> Simulation \<Rightarrow> error + Simulation" where
  "run_scheduler_cycle fuel sim = snd (scheduler_cycle_rounds fuel sim)"

section \<open>The event loop\<close>

text \<open>The dispatch on the class of the event.\<close>

definition dispatch :: "nat \<Rightarrow> Simulation \<Rightarrow> SimEvent \<Rightarrow> error + Simulation" where
  "dispatch fuel sim event =
     (case payload event of
        SubmitEvent app_key num_tasks \<Rightarrow> handle_submit_event sim app_key num_tasks
      | TaskFinishEvent task_id app_key node_key \<Rightarrow>
          handle_task_finish_event sim task_id app_key node_key
      | SchedulerRunEvent _ \<Rightarrow> run_scheduler_cycle fuel sim)"

text \<open>The statements after the dispatch, which plan a scheduler run.\<close>

definition after_dispatch :: "Simulation \<Rightarrow> SimEvent \<Rightarrow> Simulation" where
  "after_dispatch sim event =
     (if (case payload event of SchedulerRunEvent allocation_made \<Rightarrow> \<not> allocation_made
          | _ \<Rightarrow> False)
      then sim
      else if \<not> list_ex is_SchedulerRunEvent (event_queue sim)
      then trigger_scheduler_run sim False
      else sim)"

text \<open>
  One pass of the body of \<open>while self.event_queue\<close>: \<open>None\<close> when the queue is
  empty, else the event that was popped and the state after it.
\<close>

definition loop_body :: "nat \<Rightarrow> Simulation \<Rightarrow> error + (SimEvent \<times> Simulation) option" where
  "loop_body fuel sim =
     (case heappop (event_queue sim) of
        None \<Rightarrow> Inr None
      | Some (event, q) \<Rightarrow>
          (case dispatch fuel (sim\<lparr>event_queue := q, current_time := time event\<rparr>) event of
             Inl e \<Rightarrow> Inl e
           | Inr sim' \<Rightarrow> Inr (Some (event, after_dispatch sim' event))))"

text \<open>
  The \<open>while\<close> loop of \<open>Simulation.run\<close>, with fuel for the number of events and
  for the rounds of each cycle. Beside the result stands every event that was dispatched,
  in the order of dispatch, with the state after it.
\<close>

fun event_loop ::
  "nat \<Rightarrow> nat \<Rightarrow> Simulation \<Rightarrow> (SimEvent \<times> Simulation) list \<times> (error + Simulation)" where
  "event_loop 0 fuel sim = ([], Inl OutOfFuel)"
| "event_loop (Suc n) fuel sim =
     (case loop_body fuel sim of
        Inl e \<Rightarrow> ([], Inl e)
      | Inr None \<Rightarrow> ([], Inr sim)
      | Inr (Some (event, sim')) \<Rightarrow>
          (let (dispatched, result) = event_loop n fuel sim'
           in ((event, sim') # dispatched, result)))"

definition run ::
  "nat \<Rightarrow> nat \<Rightarrow> Simulation \<Rightarrow> (SimEvent \<times> Simulation) list \<times> (error + Simulation)" where
  "run n fuel sim = event_loop n fuel (trigger_scheduler_run sim False)"

text \<open>
  The constructors. \<open>Node.__post_init__\<close> and \<open>Application.__post_init__\<close> set the
  usage to zero; \<open>Simulation.__init__\<close> builds the two dicts, the cluster total and the
  submission events. Its last argument is the value of the module-wide event counter
  when the simulation is built.
\<close>

definition new_Node :: "int \<Rightarrow> ResourceVector \<Rightarrow> Node" where
  "new_Node i R = \<lparr>n_id = i, R_k = R, C_k = zeros_like R, n_running_tasks = []\<rparr>"

definition new_Application :: "int \<Rightarrow> ResourceVector \<Rightarrow> real \<Rightarrow> Application" where
  "new_Application i req dur =
     \<lparr>a_id = i, proto_requirements = req, proto_duration = dur, pending_tasks = [],
      a_running_tasks = [], U_i = zeros_like req, s_i = 0\<rparr>"

fun push_submissions :: "(real \<times> int \<times> int) list \<Rightarrow> Simulation \<Rightarrow> Simulation" where
  "push_submissions [] sim = sim"
| "push_submissions ((t, app_key, num_tasks) # rest) sim =
     push_submissions rest (push_new_event sim t (SubmitEvent app_key num_tasks))"

definition Simulation_init ::
  "Node list \<Rightarrow> Application list \<Rightarrow> (real \<times> int \<times> int) list \<Rightarrow> real \<Rightarrow> real \<Rightarrow> real \<Rightarrow> nat
     \<Rightarrow> Simulation" where
  "Simulation_init node_list app_list submission_queue preemption_alpha preemption_beta
       preemption_epsilon counter0 =
     push_submissions submission_queue
       \<lparr>current_time = 0, event_queue = [],
        nodes = foldl (\<lambda>d n. AList.update (n_id n) n d) [] node_list,
        apps = foldl (\<lambda>d a. AList.update (a_id a) a d) [] app_list,
        R_total = np_sum_axis0 (map R_k node_list),
        task_id_counter = 0, all_tasks = [],
        ALPHA = preemption_alpha, BETA = preemption_beta, EPSILON = preemption_epsilon,
        event_counter = counter0\<rparr>"

section \<open>Analysis: definitions\<close>

text \<open>
  The dominant share in the words of the specification: the greatest component of
  \<open>U / R_total\<close>, where a component with a zero divisor counts 0, and 0 when the
  dimension is 0.
\<close>

definition spec_dominant_share :: "ResourceVector \<Rightarrow> ResourceVector \<Rightarrow> real" where
  "spec_dominant_share U R =
     (if length U = 0 then 0
      else Max ((\<lambda>r. if R ! r = 0 then 0 else U ! r / R ! r) ` {..<length U}))"

text \<open>A small cluster for the examples: one node and two applications.\<close>

definition demo_sim :: Simulation where
  "demo_sim =
     Simulation_init [new_Node 1 [10]] [new_Application 1 [3] 10, new_Application 2 [4] 5]
       [(0, 1, 3), (1, 2, 1)] 2 1 0 0"

text \<open>The resources freed by a victim set, summed as the evaluator sums them.\<close>

definition freed_by :: "Simulation \<Rightarrow> Task list \<Rightarrow> ResourceVector" where
  "freed_by sim ts = foldl vadd (zeros_like (R_total sim)) (map requirements ts)"

text \<open>The placement inequality \<open>(C_k - F) + D_W \<le> R_k\<close> for a victim set on a node.\<close>

definition prefix_fits :: "Simulation \<Rightarrow> Node \<Rightarrow> ResourceVector \<Rightarrow> Task list \<Rightarrow> bool" where
  "prefix_fits sim node D_W ts =
     np_all_le (vadd (vsub (C_k node) (freed_by sim ts)) D_W) (R_k node)"

text \<open>The running tasks of a node that belong to the victim application, in dict order.\<close>

definition victim_tasks_on :: "Application \<Rightarrow> Node \<Rightarrow> Task list" where
  "victim_tasks_on P node =
     filter (\<lambda>task. app_id task = a_id P) (map snd (n_running_tasks node))"

text \<open>The total wasted-work cost of a victim set.\<close>

definition total_cost :: "Simulation \<Rightarrow> Task list \<Rightarrow> real" where
  "total_cost sim ts =
     (case task_costs sim ts of Inl e \<Rightarrow> 0 | Inr cs \<Rightarrow> sum_list (map fst cs))"

text \<open>The hierarchy, gain and economic checks for a victim set.\<close>

definition passes_checks :: "Simulation \<Rightarrow> Application \<Rightarrow> ResourceVector \<Rightarrow> Application \<Rightarrow> Task list \<Rightarrow> bool" where
  "passes_checks sim W D_W P ts =
     (let s_W' = calculate_s_i sim (vadd (U_i W) D_W);
          s_P' = calculate_s_i sim (vsub (U_i P) (freed_by sim ts))
      in s_P' > s_W' \<and> s_i P - s_P' > EPSILON sim
         \<and> (s_i P - s_P') * ALPHA sim > total_cost sim ts * BETA sim)"

text \<open>The placement inequality in terms of the freed vector.\<close>

definition fits_with :: "Node \<Rightarrow> ResourceVector \<Rightarrow> ResourceVector \<Rightarrow> bool" where
  "fits_with node D_W freed = np_all_le (vadd (vsub (C_k node) freed) D_W) (R_k node)"

text \<open>The victim application: the first of the applications with a running task that has the
  greatest \<open>s_i\<close>.\<close>

definition select_victim_app :: "Simulation \<Rightarrow> Application option" where
  "select_victim_app sim =
     (case filter (\<lambda>app. a_running_tasks app \<noteq> []) (map snd (apps sim)) of
        [] \<Rightarrow> None
      | a # as \<Rightarrow> Some (py_max_key s_i a as))"

text \<open>The victim tasks of a node in ascending order of cost (a stable sort).\<close>

definition sorted_victims :: "Simulation \<Rightarrow> Application \<Rightarrow> Node \<Rightarrow> Task list option" where
  "sorted_victims sim P node =
     (case task_costs sim (victim_tasks_on P node) of
        Inl e \<Rightarrow> None
      | Inr cs \<Rightarrow> Some (map snd (sort_key fst cs)))"

text \<open>The first \<open>n\<close> tasks of a list fit, and no shorter prefix does.\<close>

definition shortest_fitting_prefix ::
  "Simulation \<Rightarrow> Node \<Rightarrow> ResourceVector \<Rightarrow> Task list \<Rightarrow> nat \<Rightarrow> bool" where
  "shortest_fitting_prefix sim node D_W sorted_tasks n \<longleftrightarrow>
     n \<le> length sorted_tasks
     \<and> prefix_fits sim node D_W (take n sorted_tasks)
     \<and> (\<forall>m < n. \<not> prefix_fits sim node D_W (take m sorted_tasks))"

text \<open>The state of the example cluster at time 1, when application 2 has submitted its task:
  the three tasks of application 1 fill the node.\<close>

definition demo_running_task :: "int \<Rightarrow> Task" where
  "demo_running_task i =
     \<lparr>t_id = i, app_id = 1, requirements = [3], duration = 10, status = RUNNING,
      start_time = 0, node_id = 1\<rparr>"

definition demo_winner_task :: Task where
  "demo_winner_task =
     \<lparr>t_id = 3, app_id = 2, requirements = [4], duration = 5, status = PENDING,
      start_time = -1, node_id = -1\<rparr>"

definition demo_victim_app :: Application where
  "demo_victim_app =
     \<lparr>a_id = 1, proto_requirements = [3], proto_duration = 10, pending_tasks = [],
      a_running_tasks = [(0, demo_running_task 0), (1, demo_running_task 1),
                         (2, demo_running_task 2)],
      U_i = [9], s_i = 9 / 10\<rparr>"

definition demo_winner_app :: Application where
  "demo_winner_app =
     \<lparr>a_id = 2, proto_requirements = [4], proto_duration = 5,
      pending_tasks = [demo_winner_task], a_running_tasks = [], U_i = [0], s_i = 0\<rparr>"

definition demo_node :: Node where
  "demo_node =
     \<lparr>n_id = 1, R_k = [10], C_k = [9],
      n_running_tasks = [(0, demo_running_task 0), (1, demo_running_task 1),
                         (2, demo_running_task 2)]\<rparr>"

definition demo_blocked :: Simulation where
  "demo_blocked =
     \<lparr>current_time = 1,
      event_queue =
        [\<lparr>time = 10, priority = 1, counter = 3, payload = TaskFinishEvent 0 1 1\<rparr>,
         \<lparr>time = 10, priority = 1, counter = 4, payload = TaskFinishEvent 1 1 1\<rparr>,
         \<lparr>time = 10, priority = 1, counter = 5, payload = TaskFinishEvent 2 1 1\<rparr>,
         \<lparr>time = 1, priority = 2, counter = 6, payload = SchedulerRunEvent False\<rparr>],
      nodes = [(1, demo_node)],
      apps = [(1, demo_victim_app), (2, demo_winner_app)],
      R_total = [10], task_id_counter = 4,
      all_tasks = [(0, demo_running_task 0), (1, demo_running_task 1),
                   (2, demo_running_task 2), (3, demo_winner_task)],
      ALPHA = 2, BETA = 1, EPSILON = 0, event_counter = 7\<rparr>"

text \<open>The state after the first \<open>n\<close> passes of the event loop.\<close>

fun loop_prefix :: "nat \<Rightarrow> nat \<Rightarrow> Simulation \<Rightarrow> error + Simulation" where
  "loop_prefix 0 fuel sim = Inr sim"
| "loop_prefix (Suc n) fuel sim =
     (case loop_body fuel sim of
        Inl e \<Rightarrow> Inl e
      | Inr None \<Rightarrow> Inr sim
      | Inr (Some (event, sim')) \<Rightarrow> loop_prefix n fuel sim')"

text \<open>The example cluster at time 0 with one task of application 1 pending and the node empty.\<close>

definition demo_fresh :: Simulation where
  "demo_fresh =
     \<lparr>current_time = 0,
      event_queue =
        [\<lparr>time = 1, priority = 1, counter = 1, payload = SubmitEvent 2 1\<rparr>],
      nodes = [(1, new_Node 1 [10])],
      apps = [(1, (new_Application 1 [3] 10)
                    \<lparr>pending_tasks := [(demo_running_task 0)
                         \<lparr>status := PENDING, start_time := -1, node_id := -1\<rparr>]\<rparr>),
              (2, new_Application 2 [4] 5)],
      R_total = [10], task_id_counter = 1,
      all_tasks = [(0, (demo_running_task 0)
                         \<lparr>status := PENDING, start_time := -1, node_id := -1\<rparr>)],
      ALPHA = 2, BETA = 1, EPSILON = 0, event_counter = 3\<rparr>"


text \<open>Every resource vector of the state has dimension \<open>D\<close>.\<close>

definition dims_ok :: "nat \<Rightarrow> Simulation \<Rightarrow> bool" where
  "dims_ok D sim \<longleftrightarrow>
     length (R_total sim) = D
     \<and> (\<forall>(k, n) \<in> set (nodes sim).
           length (R_k n) = D \<and> length (C_k n) = D
           \<and> (\<forall>(i, t) \<in> set (n_running_tasks n). length (requirements t) = D))
     \<and> (\<forall>(k, a) \<in> set (apps sim).
           length (U_i a) = D \<and> length (proto_requirements a) = D
           \<and> (\<forall>t \<in> set (pending_tasks a). length (requirements t) = D))
     \<and> (\<forall>(i, t) \<in> set (all_tasks sim). length (requirements t) = D)"

text \<open>
  Task 0 of the example after its preemption at time 1, and the finish event that was
  queued for it when it was first placed at time 0.
\<close>

definition demo_preempted_task :: Task where
  "demo_preempted_task = (demo_running_task 0)\<lparr>status := PENDING, start_time := -1, node_id := -1\<rparr>"

definition demo_stale_event :: SimEvent where
  "demo_stale_event = \<lparr>time = 10, priority = 1, counter = 3, payload = TaskFinishEvent 0 1 1\<rparr>"

text \<open>The total number of pending tasks over all applications.\<close>

definition total_pending :: "Simulation \<Rightarrow> nat" where
  "total_pending sim = sum_list (map (\<lambda>(k, a). length (pending_tasks a)) (apps sim))"







text \<open>
  The queue is well formed: the counters are distinct and below the next counter, every
  event has the priority of its class, and no scheduler run is marked
  \<open>allocation_made\<close>.
\<close>

definition queue_wf :: "Simulation \<Rightarrow> bool" where
  "queue_wf sim \<longleftrightarrow>
     distinct (map counter (event_queue sim))
     \<and> (\<forall>e \<in> set (event_queue sim).
           counter e < event_counter sim
           \<and> priority e = default_priority (payload e)
           \<and> payload e \<noteq> SchedulerRunEvent True)"




text \<open>While an event is dispatched: the clock is at its time and the queue holds later events only.\<close>

definition dispatching :: "SimEvent \<Rightarrow> Simulation \<Rightarrow> bool" where
  "dispatching ev sim \<longleftrightarrow>
     current_time sim = time ev \<and> (\<forall>e \<in> set (event_queue sim). event_lt ev e)"

text \<open>The total usage of resource \<open>r\<close> recorded by the applications (the sum of the \<open>U_i\<close>).\<close>

definition usage_of_apps :: "Simulation \<Rightarrow> nat \<Rightarrow> real" where
  "usage_of_apps sim r = sum_list (map (\<lambda>(k, a). U_i a ! r) (apps sim))"

text \<open>The total usage of resource \<open>r\<close> recorded by the nodes (the sum of the \<open>C_k\<close>).\<close>

definition usage_of_nodes :: "Simulation \<Rightarrow> nat \<Rightarrow> real" where
  "usage_of_nodes sim r = sum_list (map (\<lambda>(k, n). C_k n ! r) (nodes sim))"

text \<open>Conservation: in each of the \<open>D\<close> components the two totals agree.\<close>

definition conserved :: "nat \<Rightarrow> Simulation \<Rightarrow> bool" where
  "conserved D sim \<longleftrightarrow> list_all (\<lambda>r. usage_of_apps sim r = usage_of_nodes sim r) [0..<D]"

text \<open>A node whose vectors, and those of its running tasks, have \<open>D\<close> components.\<close>

definition node_dims_ok :: "nat \<Rightarrow> Node \<Rightarrow> bool" where
  "node_dims_ok D n \<longleftrightarrow>
     length (R_k n) = D \<and> length (C_k n) = D
     \<and> (\<forall>(i, t) \<in> set (n_running_tasks n). length (requirements t) = D)"

text \<open>An application whose vectors, and those of its pending tasks, have \<open>D\<close> components.\<close>

definition app_dims_ok :: "nat \<Rightarrow> Application \<Rightarrow> bool" where
  "app_dims_ok D a \<longleftrightarrow>
     length (U_i a) = D \<and> length (proto_requirements a) = D
     \<and> (\<forall>t \<in> set (pending_tasks a). length (requirements t) = D)"

text \<open>The shape of a state: vectors of \<open>D\<close> components and dicts with distinct keys.\<close>

definition shape_ok :: "nat \<Rightarrow> Simulation \<Rightarrow> bool" where
  "shape_ok D sim \<longleftrightarrow>
     dims_ok D sim \<and> distinct (map fst (apps sim)) \<and> distinct (map fst (nodes sim))"

text \<open>A node as its constructor leaves it when no running tasks are passed: \<open>Node.__post_init__\<close>
  sets the usage to zero.\<close>

definition fresh_node :: "nat \<Rightarrow> Node \<Rightarrow> bool" where
  "fresh_node D n \<longleftrightarrow>
     length (R_k n) = D \<and> C_k n = zeros_like (R_k n) \<and> n_running_tasks n = []"

text \<open>An application as its constructor leaves it when no tasks are passed:
  \<open>Application.__post_init__\<close> sets the usage to zero.\<close>

definition fresh_app :: "nat \<Rightarrow> Application \<Rightarrow> bool" where
  "fresh_app D a \<longleftrightarrow>
     length (proto_requirements a) = D \<and> U_i a = zeros_like (proto_requirements a)
     \<and> pending_tasks a = [] \<and> a_running_tasks a = []"

section \<open>The dominant share\<close>

lemma zero_if_not_finite_np_divide:
  "zero_if_not_finite (np_divide u r) = (if r = 0 then 0 else u / r)"
  by (simp add: np_divide_def)

lemma finite_shares_nth:
  "length U = length R \<Longrightarrow>
   finite_shares U R = map (\<lambda>r. if R ! r = 0 then 0 else U ! r / R ! r) [0..<length U]"
  by (rule nth_equalityI) (simp_all add: finite_shares_def zero_if_not_finite_np_divide)

lemma np_max_Max: "xs \<noteq> [] \<Longrightarrow> np_max xs = Some (Max (set xs))"
proof (cases xs)
  case Nil
  assume "xs \<noteq> []"
  with Nil show ?thesis by simp
next
  case (Cons x rest)
  have "foldl max x rest = fold max rest x"
    by (simp add: foldl_conv_fold max.commute)
  moreover have "Max (set (x # rest)) = fold max rest x"
    by (rule Max.set_eq_fold)
  ultimately show ?thesis
    using Cons by (simp add: np_max_def)
qed

lemma share_of_shares:
  assumes "length U = length R"
  shows "(case np_max (finite_shares U R) of Some m \<Rightarrow> m | None \<Rightarrow> 0) = spec_dominant_share U R"
proof (cases "U = []")
  case True
  then show ?thesis by (simp add: finite_shares_def np_max_def spec_dominant_share_def)
next
  case False
  then have ne: "finite_shares U R \<noteq> []"
    using assms by (cases U; cases R) (simp_all add: finite_shares_def)
  have "set (finite_shares U R) = (\<lambda>r. if R ! r = 0 then 0 else U ! r / R ! r) ` {..<length U}"
    using assms by (simp add: finite_shares_nth atLeast0LessThan)
  then show ?thesis
    using False ne by (simp add: np_max_Max spec_dominant_share_def)
qed

text \<open>
  C8. For vectors of the dimension of the cluster total, the what-if computation
  \<open>_calculate_s_i\<close> and the update of an application's \<open>s_i\<close> both give the dominant
  share of the specification: the greatest component of \<open>U / R_total\<close> with 0 for
  every component whose divisor is 0, and 0 in dimension 0.
\<close>

theorem dominant_share_meets_spec:
  assumes "length U = length (R_total sim)"
    and "length (U_i app) = length (R_total sim)"
  shows "calculate_s_i sim U = spec_dominant_share U (R_total sim)
       \<and> s_i (update_dominant_share app (R_total sim))
           = spec_dominant_share (U_i app) (R_total sim)"
  using share_of_shares [OF assms(1)] share_of_shares [OF assms(2)]
  by (simp add: calculate_s_i_def update_dominant_share_def)

theorem dominant_share_meets_spec_witness:
  "length [2, 5 :: real] = length (R_total (demo_sim\<lparr>R_total := [8, 0]\<rparr>))
   \<and> length (U_i (new_Application 1 [0, 0] 1)) = length (R_total (demo_sim\<lparr>R_total := [8, 0]\<rparr>))
   \<and> calculate_s_i (demo_sim\<lparr>R_total := [8, 0]\<rparr>) [2, 5] = 1 / 4
   \<and> spec_dominant_share [2, 5] [8, 0] = 1 / 4
   \<and> s_i (update_dominant_share (new_Application 1 [0, 0] 1) [8, 0]) = 0"
proof -
  have h1: "length [2, 5 :: real] = length (R_total (demo_sim\<lparr>R_total := [8, 0]\<rparr>))"
    by simp
  have h2: "length (U_i (new_Application 1 [0, 0] 1))
              = length (R_total (demo_sim\<lparr>R_total := [8, 0]\<rparr>))"
    by (simp add: new_Application_def zeros_like_def)
  have c: "calculate_s_i (demo_sim\<lparr>R_total := [8, 0]\<rparr>) [2, 5] = 1 / 4"
    by (simp add: calculate_s_i_def finite_shares_def np_max_def np_divide_def)
  have u: "s_i (update_dominant_share (new_Application 1 [0, 0] 1) [8, 0]) = 0"
    by (simp add: update_dominant_share_def finite_shares_def np_max_def np_divide_def
        new_Application_def zeros_like_def)
  from dominant_share_meets_spec [OF h1 h2] c u h1 h2 show ?thesis
    by simp
qed

section \<open>The preemption evaluator: what a returned candidate satisfies\<close>

lemma py_max_key_mem: "py_max_key f a xs \<in> set (a # xs)"
  by (induction xs arbitrary: a) auto

lemma py_max_key_ge_cur: "f a \<le> f (py_max_key f a xs)"
proof (induction xs arbitrary: a)
  case Nil
  then show ?case by simp
next
  case (Cons x xs)
  show ?case
  proof (cases "f x > f a")
    case True
    with Cons [of x] show ?thesis by simp
  next
    case False
    with Cons [of a] show ?thesis by simp
  qed
qed

lemma py_max_key_greatest: "x \<in> set (a # xs) \<Longrightarrow> f x \<le> f (py_max_key f a xs)"
proof (induction xs arbitrary: a)
  case Nil
  then show ?case by simp
next
  case (Cons y ys)
  let ?c = "if f y > f a then y else a"
  have step: "py_max_key f a (y # ys) = py_max_key f ?c ys" by simp
  from Cons.prems consider "x = a" | "x = y" | "x \<in> set ys" by auto
  then show ?case
  proof cases
    case 1
    have "f a \<le> f ?c" by simp
    also have "\<dots> \<le> f (py_max_key f ?c ys)" by (rule py_max_key_ge_cur)
    finally show ?thesis using 1 step by simp
  next
    case 2
    have "f y \<le> f ?c" by simp
    also have "\<dots> \<le> f (py_max_key f ?c ys)" by (rule py_max_key_ge_cur)
    finally show ?thesis using 2 step by simp
  next
    case 3
    then have "x \<in> set (?c # ys)" by simp
    from Cons.IH [OF this] show ?thesis using step by simp
  qed
qed

lemma task_costs_Inr:
  "task_costs sim ts = Inr cs \<Longrightarrow>
     map snd cs = ts \<and> (\<forall>(c, t) \<in> set cs. calculate_task_cost sim t = Inr c)"
  by (induction ts arbitrary: cs) (auto split: sum.splits)

lemma task_costs_of_pairs:
  "(\<forall>(c, t) \<in> set cs. calculate_task_cost sim t = Inr c) \<Longrightarrow> task_costs sim (map snd cs) = Inr cs"
  by (induction cs) auto

lemma build_tau_Some:
  "build_tau node D_W cs tau freed cost = Some (tau', freed', cost') \<Longrightarrow>
     \<exists>n. 0 < n \<and> n \<le> length cs
       \<and> tau' = tau @ map snd (take n cs)
       \<and> freed' = foldl vadd freed (map (requirements \<circ> snd) (take n cs))
       \<and> cost' = cost + sum_list (map fst (take n cs))
       \<and> fits_with node D_W freed'
       \<and> (\<forall>m. 0 < m \<and> m < n \<longrightarrow>
             \<not> fits_with node D_W (foldl vadd freed (map (requirements \<circ> snd) (take m cs))))"
proof (induction cs arbitrary: tau freed cost)
  case Nil
  then show ?case by simp
next
  case (Cons p cs)
  obtain c t where p: "p = (c, t)" by (cases p)
  let ?freed = "vadd freed (requirements t)"
  show ?case
  proof (cases "fits_with node D_W ?freed")
    case True
    with Cons.prems p have "tau' = tau @ [t]" "freed' = ?freed" "cost' = cost + c"
      by (simp_all add: Let_def fits_with_def)
    with True p show ?thesis
      by (intro exI [of _ 1]) simp
  next
    case False
    with Cons.prems p have
      "build_tau node D_W cs (tau @ [t]) ?freed (cost + c) = Some (tau', freed', cost')"
      by (simp add: Let_def fits_with_def)
    from Cons.IH [OF this] obtain n where n: "0 < n" "n \<le> length cs"
      and t': "tau' = (tau @ [t]) @ map snd (take n cs)"
      and f': "freed' = foldl vadd ?freed (map (requirements \<circ> snd) (take n cs))"
      and c': "cost' = cost + c + sum_list (map fst (take n cs))"
      and fit: "fits_with node D_W freed'"
      and least: "\<forall>m. 0 < m \<and> m < n \<longrightarrow>
             \<not> fits_with node D_W (foldl vadd ?freed (map (requirements \<circ> snd) (take m cs)))"
      by blast
    have least': "\<forall>m. 0 < m \<and> m < Suc n \<longrightarrow>
             \<not> fits_with node D_W (foldl vadd freed (map (requirements \<circ> snd) (take m (p # cs))))"
    proof (intro allI impI)
      fix m assume m: "0 < m \<and> m < Suc n"
      then obtain m' where m': "m = Suc m'" by (cases m) auto
      show "\<not> fits_with node D_W (foldl vadd freed (map (requirements \<circ> snd) (take m (p # cs))))"
      proof (cases "m' = 0")
        case True
        with m' p False show ?thesis by simp
      next
        case False
        with m m' least p show ?thesis by simp
      qed
    qed
    have "0 < Suc n" "Suc n \<le> length (p # cs)" using n by simp_all
    moreover have "tau' = tau @ map snd (take (Suc n) (p # cs))" using t' p by simp
    moreover have "freed' = foldl vadd freed (map (requirements \<circ> snd) (take (Suc n) (p # cs)))"
      using f' p by simp
    moreover have "cost' = cost + sum_list (map fst (take (Suc n) (p # cs)))"
      using c' p by simp
    ultimately show ?thesis using fit least' by blast
  qed
qed

lemma build_tau_None:
  "build_tau node D_W cs tau freed cost = None \<Longrightarrow> 0 < m \<Longrightarrow> m \<le> length cs \<Longrightarrow>
     \<not> fits_with node D_W (foldl vadd freed (map (requirements \<circ> snd) (take m cs)))"
proof (induction cs arbitrary: tau freed cost m)
  case Nil
  then show ?case by simp
next
  case (Cons p cs)
  obtain c t where p: "p = (c, t)" by (cases p)
  obtain m' where m': "m = Suc m'" using Cons.prems(2) by (cases m) auto
  from Cons.prems(1) p have nofit: "\<not> fits_with node D_W (vadd freed (requirements t))"
    and rest: "build_tau node D_W cs (tau @ [t]) (vadd freed (requirements t)) (cost + c) = None"
    by (simp_all add: Let_def fits_with_def split: if_splits)
  show ?case
  proof (cases "m' = 0")
    case True
    with m' p nofit show ?thesis by simp
  next
    case False
    with Cons.IH [OF rest, of m'] Cons.prems(3) m' p show ?thesis by simp
  qed
qed

lemma total_cost_take:
  assumes "task_costs sim ts = Inr cs"
  shows "total_cost sim (map snd (take n (sort_key fst cs))) = sum_list (map fst (take n (sort_key fst cs)))"
proof -
  have "\<forall>(c, t) \<in> set cs. calculate_task_cost sim t = Inr c"
    using task_costs_Inr [OF assms] by simp
  moreover have "set (take n (sort_key fst cs)) \<subseteq> set cs"
    using set_take_subset [of n "sort_key fst cs"] by simp
  ultimately have "\<forall>(c, t) \<in> set (take n (sort_key fst cs)). calculate_task_cost sim t = Inr c"
    by blast
  from task_costs_of_pairs [OF this] show ?thesis
    by (simp add: total_cost_def)
qed

lemma node_candidate_SomeD:
  assumes "node_candidate sim W D_W P node = Inr (Some (koszt, tau))"
  shows "\<exists>cs n. task_costs sim (victim_tasks_on P node) = Inr cs
           \<and> 0 < n \<and> n \<le> length cs
           \<and> tau = map snd (take n (sort_key fst cs))
           \<and> koszt = total_cost sim tau
           \<and> prefix_fits sim node D_W tau
           \<and> (\<forall>m. 0 < m \<and> m < n \<longrightarrow>
                 \<not> prefix_fits sim node D_W (map snd (take m (sort_key fst cs))))
           \<and> passes_checks sim W D_W P tau"
proof -
  from assms obtain cs where cs: "task_costs sim (victim_tasks_on P node) = Inr cs"
    by (auto simp: node_candidate_def victim_tasks_on_def Let_def split: if_splits sum.splits)
  let ?sorted = "sort_key fst cs"
  from assms cs obtain tau' freed cost where
    bt: "build_tau node D_W ?sorted [] (zeros_like (R_total sim)) 0 = Some (tau', freed, cost)"
    by (auto simp: node_candidate_def victim_tasks_on_def Let_def
        split: if_splits sum.splits option.splits)
  from assms cs bt have res: "tau' = tau" "cost = koszt"
    and chk: "calculate_s_i sim (vsub (U_i P) freed) > calculate_s_i sim (vadd (U_i W) D_W)"
      "s_i P - calculate_s_i sim (vsub (U_i P) freed) > EPSILON sim"
      "(s_i P - calculate_s_i sim (vsub (U_i P) freed)) * ALPHA sim > cost * BETA sim"
    by (auto simp: node_candidate_def victim_tasks_on_def Let_def
        split: if_splits sum.splits option.splits)
  from build_tau_Some [OF bt] obtain n where n: "0 < n" "n \<le> length ?sorted"
    and t: "tau' = [] @ map snd (take n ?sorted)"
    and f: "freed = foldl vadd (zeros_like (R_total sim)) (map (requirements \<circ> snd) (take n ?sorted))"
    and c: "cost = 0 + sum_list (map fst (take n ?sorted))"
    and fit: "fits_with node D_W freed"
    and least: "\<forall>m. 0 < m \<and> m < n \<longrightarrow>
         \<not> fits_with node D_W (foldl vadd (zeros_like (R_total sim))
                (map (requirements \<circ> snd) (take m ?sorted)))"
    by blast
  have tau: "tau = map snd (take n ?sorted)" using t res by simp
  have freed: "freed = freed_by sim tau" using f tau by (simp add: freed_by_def)
  have koszt: "koszt = total_cost sim tau"
    using c res tau total_cost_take [OF cs, of n] by simp
  have "prefix_fits sim node D_W tau"
    using fit freed by (simp add: prefix_fits_def fits_with_def)
  moreover have "\<forall>m. 0 < m \<and> m < n \<longrightarrow> \<not> prefix_fits sim node D_W (map snd (take m ?sorted))"
    using least by (simp add: prefix_fits_def fits_with_def freed_by_def)
  moreover have "passes_checks sim W D_W P tau"
    using chk freed koszt res by (simp add: passes_checks_def Let_def)
  ultimately show ?thesis using cs n tau koszt by auto
qed

text \<open>The shortest fitting prefix of a node and the candidate it gives.\<close>

lemma node_candidate_complete:
  assumes cs: "task_costs sim (victim_tasks_on P node) = Inr cs"
    and n: "0 < n" "n \<le> length cs"
    and fit: "prefix_fits sim node D_W (map snd (take n (sort_key fst cs)))"
    and least: "\<forall>m. 0 < m \<and> m < n \<longrightarrow>
                 \<not> prefix_fits sim node D_W (map snd (take m (sort_key fst cs)))"
    and chk: "passes_checks sim W D_W P (map snd (take n (sort_key fst cs)))"
  shows "node_candidate sim W D_W P node
           = Inr (Some (total_cost sim (map snd (take n (sort_key fst cs))),
                        map snd (take n (sort_key fst cs))))"
proof -
  let ?sorted = "sort_key fst cs"
  let ?tau = "map snd (take n ?sorted)"
  have ne: "victim_tasks_on P node \<noteq> []"
    using task_costs_Inr [OF cs] n by auto
  have "build_tau node D_W ?sorted [] (zeros_like (R_total sim)) 0 \<noteq> None"
  proof
    assume "build_tau node D_W ?sorted [] (zeros_like (R_total sim)) 0 = None"
    from build_tau_None [OF this, of n] n fit show False
      by (simp add: prefix_fits_def fits_with_def freed_by_def)
  qed
  then obtain tau' freed cost where
    bt: "build_tau node D_W ?sorted [] (zeros_like (R_total sim)) 0 = Some (tau', freed, cost)"
    by (cases "build_tau node D_W ?sorted [] (zeros_like (R_total sim)) 0") auto
  from build_tau_Some [OF bt] obtain k where k: "0 < k" "k \<le> length ?sorted"
    and t: "tau' = [] @ map snd (take k ?sorted)"
    and f: "freed = foldl vadd (zeros_like (R_total sim)) (map (requirements \<circ> snd) (take k ?sorted))"
    and c: "cost = 0 + sum_list (map fst (take k ?sorted))"
    and kfit: "fits_with node D_W freed"
    and kleast: "\<forall>m. 0 < m \<and> m < k \<longrightarrow>
         \<not> fits_with node D_W (foldl vadd (zeros_like (R_total sim))
                (map (requirements \<circ> snd) (take m ?sorted)))"
    by blast
  have "\<not> k < n"
  proof
    assume "k < n"
    with least k have "\<not> prefix_fits sim node D_W (map snd (take k ?sorted))" by simp
    with kfit f show False by (simp add: prefix_fits_def fits_with_def freed_by_def)
  qed
  moreover have "\<not> n < k"
  proof
    assume "n < k"
    with kleast n have "\<not> fits_with node D_W (foldl vadd (zeros_like (R_total sim))
                (map (requirements \<circ> snd) (take n ?sorted)))" by simp
    with fit show False by (simp add: prefix_fits_def fits_with_def freed_by_def)
  qed
  ultimately have kn: "k = n" by simp
  have tau': "tau' = ?tau" using t kn by simp
  have freed: "freed = freed_by sim ?tau" using f kn by (simp add: freed_by_def)
  have cost: "cost = total_cost sim ?tau" using c kn total_cost_take [OF cs, of n] by simp
  from chk have "calculate_s_i sim (vsub (U_i P) freed) > calculate_s_i sim (vadd (U_i W) D_W)"
      "s_i P - calculate_s_i sim (vsub (U_i P) freed) > EPSILON sim"
      "(s_i P - calculate_s_i sim (vsub (U_i P) freed)) * ALPHA sim > cost * BETA sim"
    using freed cost by (simp_all add: passes_checks_def Let_def)
  then show ?thesis
    using ne cs bt tau' cost
    by (simp add: node_candidate_def victim_tasks_on_def [symmetric] Let_def)
qed

lemma scan_nodes_result:
  "scan_nodes sim W D_W P ns best = Inr (Some (c, tau, k)) \<Longrightarrow>
     (best = Some (c, tau, k)
        \<or> (\<exists>node. (k, node) \<in> set ns \<and> node_candidate sim W D_W P node = Inr (Some (c, tau))))
     \<and> (\<forall>c' t' k'. best = Some (c', t', k') \<longrightarrow> c \<le> c')
     \<and> (\<forall>(k', n') \<in> set ns. \<forall>c' t'.
           node_candidate sim W D_W P n' = Inr (Some (c', t')) \<longrightarrow> c \<le> c')"
proof (induction ns arbitrary: best)
  case Nil
  then show ?case by simp
next
  case (Cons p ns)
  obtain key node where p: "p = (key, node)" by (cases p)
  show ?case
  proof (cases "node_candidate sim W D_W P node")
    case (Inl e)
    with Cons.prems p show ?thesis by simp
  next
    case (Inr r)
    show ?thesis
    proof (cases r)
      case None
      with Inr Cons.prems p have "scan_nodes sim W D_W P ns best = Inr (Some (c, tau, k))"
        by simp
      from Cons.IH [OF this] Inr None p show ?thesis by auto
    next
      case (Some kt)
      obtain koszt tau_Pk where kt: "kt = (koszt, tau_Pk)" by (cases kt)
      let ?best = "case best of None \<Rightarrow> Some (koszt, tau_Pk, key)
             | Some (best_cost, best_tau, best_key) \<Rightarrow>
                 if koszt < best_cost then Some (koszt, tau_Pk, key)
                 else Some (best_cost, best_tau, best_key)"
      from Inr Some kt Cons.prems p have
        "scan_nodes sim W D_W P ns ?best = Inr (Some (c, tau, k))" by simp
      from Cons.IH [OF this] have
        a: "?best = Some (c, tau, k)
           \<or> (\<exists>node. (k, node) \<in> set ns \<and> node_candidate sim W D_W P node = Inr (Some (c, tau)))"
        and b: "\<forall>c' t' k'. ?best = Some (c', t', k') \<longrightarrow> c \<le> c'"
        and d: "\<forall>(k', n') \<in> set ns. \<forall>c' t'.
           node_candidate sim W D_W P n' = Inr (Some (c', t')) \<longrightarrow> c \<le> c'"
        by blast+
      have b1: "c \<le> koszt"
        using b by (cases best) (auto split: if_splits)
      have b2: "\<forall>c' t' k'. best = Some (c', t', k') \<longrightarrow> c \<le> c'"
        using b by (cases best) (auto split: if_splits)
      have a': "best = Some (c, tau, k)
         \<or> (\<exists>node. (k, node) \<in> set (p # ns) \<and> node_candidate sim W D_W P node = Inr (Some (c, tau)))"
        using a Inr Some kt p by (cases best) (auto split: if_splits)
      have "\<forall>(k', n') \<in> set (p # ns). \<forall>c' t'.
           node_candidate sim W D_W P n' = Inr (Some (c', t')) \<longrightarrow> c \<le> c'"
        using d b1 Inr Some kt p by auto
      with a' b2 show ?thesis by blast
    qed
  qed
qed

lemma select_victim_app_greatest:
  assumes "select_victim_app sim = Some P"
  shows "P \<in> snd ` set (apps sim) \<and> a_running_tasks P \<noteq> []
       \<and> (\<forall>A \<in> snd ` set (apps sim). a_running_tasks A \<noteq> [] \<longrightarrow> s_i A \<le> s_i P)"
proof -
  let ?run = "filter (\<lambda>app. a_running_tasks app \<noteq> []) (map snd (apps sim))"
  from assms obtain a as where run: "?run = a # as" and P: "P = py_max_key s_i a as"
    by (auto simp: select_victim_app_def split: list.splits)
  have "P \<in> set ?run" using py_max_key_mem [of s_i a as] run P by simp
  moreover have "\<forall>A \<in> set ?run. s_i A \<le> s_i P"
    using py_max_key_greatest [of _ a as s_i] run P by simp
  ultimately show ?thesis by auto
qed

lemma find_preemption_candidate_SomeD:
  assumes "find_preemption_candidate sim W T = Inr (Some (tau, node_key))"
  shows "\<exists>P node koszt. select_victim_app sim = Some P \<and> s_i P > s_i W
           \<and> (node_key, node) \<in> set (nodes sim)
           \<and> node_candidate sim W (requirements T) P node = Inr (Some (koszt, tau))
           \<and> (\<forall>(k', n') \<in> set (nodes sim). \<forall>c' t'.
                 node_candidate sim W (requirements T) P n' = Inr (Some (c', t')) \<longrightarrow> koszt \<le> c')"
proof -
  from assms obtain P where P: "select_victim_app sim = Some P"
    by (auto simp: find_preemption_candidate_def select_victim_app_def Let_def split: list.splits)
  from assms P have gt: "s_i P > s_i W"
    by (auto simp: find_preemption_candidate_def select_victim_app_def Let_def
        split: list.splits if_splits)
  from assms P gt obtain koszt where
    "scan_nodes sim W (requirements T) P (nodes sim) None = Inr (Some (koszt, tau, node_key))"
    by (auto simp: find_preemption_candidate_def select_victim_app_def Let_def
        split: list.splits if_splits sum.splits option.splits)
  from scan_nodes_result [OF this] P gt show ?thesis by auto
qed

lemma demo_blocked_reached:
  "loop_prefix 3 10 (trigger_scheduler_run demo_sim False) = Inr demo_blocked"
  by code_simp

lemma demo_candidate:
  "find_preemption_candidate demo_blocked demo_winner_app demo_winner_task
     = Inr (Some ([demo_running_task 0], 1))"
  by code_simp

lemma node_candidate_victims:
  assumes "node_candidate sim W D_W P node = Inr (Some (koszt, tau))"
  shows "tau \<noteq> [] \<and> set tau \<subseteq> set (victim_tasks_on P node)"
proof -
  from node_candidate_SomeD [OF assms] obtain cs n where
    cs: "task_costs sim (victim_tasks_on P node) = Inr cs"
    and n: "0 < n" "n \<le> length cs" and tau: "tau = map snd (take n (sort_key fst cs))"
    by blast
  have "set (take n (sort_key fst cs)) \<subseteq> set cs"
    using set_take_subset [of n "sort_key fst cs"] by simp
  then have "set tau \<subseteq> set (map snd cs)" using tau by auto
  moreover have "map snd cs = victim_tasks_on P node" using task_costs_Inr [OF cs] by simp
  moreover have "length tau = n" using n tau by simp
  then have "tau \<noteq> []" using n by auto
  ultimately show ?thesis by simp
qed

text \<open>
  C3. When the evaluator returns a victim set for the winner \<open>W\<close> and its task
  \<open>T\<close>, there is a victim application \<open>P\<close> with a running task whose share is the
  greatest among the applications with a running task, \<open>s_P > s_W\<close>, the victims are
  tasks of \<open>P\<close>, and the set passes the three checks: \<open>s_P' > s_W'\<close>,
  \<open>s_P - s_P' > EPSILON\<close> and \<open>(s_P - s_P') * ALPHA > total_cost * BETA\<close>.
\<close>

theorem preemption_candidate_predicates:
  assumes "find_preemption_candidate sim W T = Inr (Some (tau, node_key))"
  shows "\<exists>P. P \<in> snd ` set (apps sim) \<and> a_running_tasks P \<noteq> []
           \<and> (\<forall>A \<in> snd ` set (apps sim). a_running_tasks A \<noteq> [] \<longrightarrow> s_i A \<le> s_i P)
           \<and> s_i P > s_i W
           \<and> tau \<noteq> [] \<and> (\<forall>t \<in> set tau. app_id t = a_id P)
           \<and> calculate_s_i sim (vsub (U_i P) (freed_by sim tau))
               > calculate_s_i sim (vadd (U_i W) (requirements T))
           \<and> s_i P - calculate_s_i sim (vsub (U_i P) (freed_by sim tau)) > EPSILON sim
           \<and> (s_i P - calculate_s_i sim (vsub (U_i P) (freed_by sim tau))) * ALPHA sim
               > total_cost sim tau * BETA sim"
proof -
  from find_preemption_candidate_SomeD [OF assms] obtain P node koszt where
    P: "select_victim_app sim = Some P" and gt: "s_i P > s_i W"
    and cand: "node_candidate sim W (requirements T) P node = Inr (Some (koszt, tau))"
    by blast
  from node_candidate_SomeD [OF cand] have "passes_checks sim W (requirements T) P tau"
    by blast
  moreover from node_candidate_victims [OF cand] have "tau \<noteq> []" "\<forall>t \<in> set tau. app_id t = a_id P"
    by (auto simp: victim_tasks_on_def)
  ultimately show ?thesis
    using select_victim_app_greatest [OF P] gt
    by (intro exI [of _ P]) (simp add: passes_checks_def Let_def)
qed

theorem preemption_candidate_predicates_witness:
  "find_preemption_candidate demo_blocked demo_winner_app demo_winner_task
     = Inr (Some ([demo_running_task 0], 1))
   \<and> (\<exists>P. P \<in> snd ` set (apps demo_blocked) \<and> a_running_tasks P \<noteq> []
           \<and> (\<forall>A \<in> snd ` set (apps demo_blocked). a_running_tasks A \<noteq> [] \<longrightarrow> s_i A \<le> s_i P)
           \<and> s_i P > s_i demo_winner_app
           \<and> [demo_running_task 0] \<noteq> [] \<and> (\<forall>t \<in> set [demo_running_task 0]. app_id t = a_id P)
           \<and> calculate_s_i demo_blocked (vsub (U_i P) (freed_by demo_blocked [demo_running_task 0]))
               > calculate_s_i demo_blocked (vadd (U_i demo_winner_app) (requirements demo_winner_task))
           \<and> s_i P - calculate_s_i demo_blocked (vsub (U_i P) (freed_by demo_blocked [demo_running_task 0]))
               > EPSILON demo_blocked
           \<and> (s_i P - calculate_s_i demo_blocked (vsub (U_i P) (freed_by demo_blocked [demo_running_task 0])))
                 * ALPHA demo_blocked
               > total_cost demo_blocked [demo_running_task 0] * BETA demo_blocked)"
  using preemption_candidate_predicates [OF demo_candidate] demo_candidate by blast

section \<open>The preemption evaluator: the cheapest prefix on the cheapest node\<close>

lemma vsub_zeros: "length C = length R \<Longrightarrow> vsub C (zeros_like R) = C"
  by (rule nth_equalityI) (simp_all add: vsub_def zeros_like_def)

lemma prefix_fits_Nil:
  "length (C_k node) = length (R_total sim) \<Longrightarrow> prefix_fits sim node D_W [] = can_fit node D_W"
  by (simp add: prefix_fits_def freed_by_def can_fit_def vsub_zeros)

lemma find_best_node_None:
  "find_best_node sim D = None \<longleftrightarrow> (\<forall>(k, n) \<in> set (nodes sim). \<not> can_fit n D)"
  by (auto simp: find_best_node_def find_None_iff)

lemma sorted_victims_sorted:
  assumes "sorted_victims sim P node = Some ts"
  shows "mset ts = mset (victim_tasks_on P node)
       \<and> sorted (map (\<lambda>t. total_cost sim [t]) ts)"
proof -
  from assms obtain cs where cs: "task_costs sim (victim_tasks_on P node) = Inr cs"
    and ts: "ts = map snd (sort_key fst cs)"
    by (auto simp: sorted_victims_def split: sum.splits)
  have pairs: "\<forall>(c, t) \<in> set cs. calculate_task_cost sim t = Inr c"
    and snd: "map snd cs = victim_tasks_on P node"
    using task_costs_Inr [OF cs] by simp_all
  have "mset ts = mset (map snd cs)"
    unfolding ts by (simp only: mset_map mset_sort)
  then have m: "mset ts = mset (victim_tasks_on P node)" using snd by simp
  have "\<forall>p \<in> set (sort_key fst cs). total_cost sim [snd p] = fst p"
    using pairs by (auto simp: total_cost_def split: sum.splits)
  then have "map (\<lambda>t. total_cost sim [t]) ts = map fst (sort_key fst cs)"
    unfolding ts by (simp add: comp_def)
  then show ?thesis using m by simp
qed

text \<open>
  C4. When the evaluator is asked for a task that fits on no node and returns a victim set
  and a node, the set is the shortest prefix of the victim application's tasks on that
  node, in ascending order of cost, for which \<open>(C_k - F) + D_W \<le> R_k\<close> holds; and no
  node whose own shortest fitting prefix passes the three checks has a smaller total cost.
\<close>

theorem preemption_candidate_minimal:
  assumes cand: "find_preemption_candidate sim W T = Inr (Some (tau, node_key))"
    and nofit: "find_best_node sim (requirements T) = None"
    and dims: "\<forall>(k, n) \<in> set (nodes sim). length (C_k n) = length (R_total sim)"
  shows "\<exists>P node ts n. select_victim_app sim = Some P
           \<and> (node_key, node) \<in> set (nodes sim)
           \<and> sorted_victims sim P node = Some ts
           \<and> mset ts = mset (victim_tasks_on P node)
           \<and> sorted (map (\<lambda>t. total_cost sim [t]) ts)
           \<and> shortest_fitting_prefix sim node (requirements T) ts n
           \<and> tau = take n ts
           \<and> (\<forall>(k', node') \<in> set (nodes sim). \<forall>ts' n'.
                 sorted_victims sim P node' = Some ts'
                 \<and> shortest_fitting_prefix sim node' (requirements T) ts' n'
                 \<and> passes_checks sim W (requirements T) P (take n' ts')
                 \<longrightarrow> total_cost sim tau \<le> total_cost sim (take n' ts'))"
proof -
  let ?D = "requirements T"
  from find_preemption_candidate_SomeD [OF cand] obtain P node koszt where
    P: "select_victim_app sim = Some P"
    and node: "(node_key, node) \<in> set (nodes sim)"
    and nc: "node_candidate sim W ?D P node = Inr (Some (koszt, tau))"
    and least: "\<forall>(k', n') \<in> set (nodes sim). \<forall>c' t'.
                 node_candidate sim W ?D P n' = Inr (Some (c', t')) \<longrightarrow> koszt \<le> c'"
    by blast
  have nocan: "\<not> prefix_fits sim n ?D []" if "(k, n) \<in> set (nodes sim)" for k n
  proof -
    from that dims have "length (C_k n) = length (R_total sim)" by blast
    moreover from that nofit have "\<not> can_fit n ?D" by (auto simp: find_best_node_None)
    ultimately show ?thesis by (simp add: prefix_fits_Nil)
  qed
  from node_candidate_SomeD [OF nc] obtain cs n where
    cs: "task_costs sim (victim_tasks_on P node) = Inr cs"
    and n: "0 < n" "n \<le> length cs"
    and tau: "tau = map snd (take n (sort_key fst cs))"
    and koszt: "koszt = total_cost sim tau"
    and fit: "prefix_fits sim node ?D tau"
    and short: "\<forall>m. 0 < m \<and> m < n \<longrightarrow> \<not> prefix_fits sim node ?D (map snd (take m (sort_key fst cs)))"
    by blast
  let ?ts = "map snd (sort_key fst cs)"
  have sv: "sorted_victims sim P node = Some ?ts"
    using cs by (simp add: sorted_victims_def)
  have tau': "tau = take n ?ts" using tau by (simp add: take_map)
  have sfp: "shortest_fitting_prefix sim node ?D ?ts n"
    unfolding shortest_fitting_prefix_def
  proof (intro conjI allI impI)
    show "n \<le> length ?ts" using n by simp
    show "prefix_fits sim node ?D (take n ?ts)" using fit tau' by simp
    fix m assume "m < n"
    show "\<not> prefix_fits sim node ?D (take m ?ts)"
    proof (cases "m = 0")
      case True
      then show ?thesis using nocan [OF node] by simp
    next
      case False
      with short \<open>m < n\<close> show ?thesis by (simp add: take_map)
    qed
  qed
  have others: "\<forall>(k', node') \<in> set (nodes sim). \<forall>ts' n'.
                 sorted_victims sim P node' = Some ts'
                 \<and> shortest_fitting_prefix sim node' ?D ts' n'
                 \<and> passes_checks sim W ?D P (take n' ts')
                 \<longrightarrow> total_cost sim tau \<le> total_cost sim (take n' ts')"
  proof (intro ballI, clarify)
    fix k' node' ts' n'
    assume mem: "(k', node') \<in> set (nodes sim)"
      and sv': "sorted_victims sim P node' = Some ts'"
      and sfp': "shortest_fitting_prefix sim node' ?D ts' n'"
      and chk': "passes_checks sim W ?D P (take n' ts')"
    from sv' obtain cs' where cs': "task_costs sim (victim_tasks_on P node') = Inr cs'"
      and ts': "ts' = map snd (sort_key fst cs')"
      by (auto simp: sorted_victims_def split: sum.splits)
    have "n' \<noteq> 0"
    proof
      assume "n' = 0"
      with sfp' have "prefix_fits sim node' ?D []" by (simp add: shortest_fitting_prefix_def)
      with nocan [OF mem] show False by simp
    qed
    then have n'0: "0 < n'" by simp
    have n'le: "n' \<le> length cs'" using sfp' ts' by (simp add: shortest_fitting_prefix_def)
    have tk: "\<And>m. take m ts' = map snd (take m (sort_key fst cs'))"
      using ts' by (simp add: take_map)
    have "node_candidate sim W ?D P node'
            = Inr (Some (total_cost sim (map snd (take n' (sort_key fst cs'))),
                         map snd (take n' (sort_key fst cs'))))"
    proof (rule node_candidate_complete [OF cs' n'0 n'le])
      show "prefix_fits sim node' ?D (map snd (take n' (sort_key fst cs')))"
        using sfp' tk by (simp add: shortest_fitting_prefix_def)
      show "\<forall>m. 0 < m \<and> m < n' \<longrightarrow> \<not> prefix_fits sim node' ?D (map snd (take m (sort_key fst cs')))"
        using sfp' tk by (simp add: shortest_fitting_prefix_def)
      show "passes_checks sim W ?D P (map snd (take n' (sort_key fst cs')))"
        using chk' tk by simp
    qed
    with least mem have "koszt \<le> total_cost sim (map snd (take n' (sort_key fst cs')))"
      by blast
    then show "total_cost sim tau \<le> total_cost sim (take n' ts')"
      using koszt tk by simp
  qed
  from P node sv sorted_victims_sorted [OF sv] sfp tau' others show ?thesis
    by blast
qed

lemma demo_no_fit: "find_best_node demo_blocked (requirements demo_winner_task) = None"
  by code_simp

lemma demo_dims: "\<forall>(k, n) \<in> set (nodes demo_blocked). length (C_k n) = length (R_total demo_blocked)"
  by (simp add: demo_blocked_def demo_node_def)

theorem preemption_candidate_minimal_witness:
  "find_preemption_candidate demo_blocked demo_winner_app demo_winner_task
     = Inr (Some ([demo_running_task 0], 1))
   \<and> find_best_node demo_blocked (requirements demo_winner_task) = None
   \<and> list_all (\<lambda>(k, n). length (C_k n) = length (R_total demo_blocked)) (nodes demo_blocked)
   \<and> (\<exists>P node ts n. select_victim_app demo_blocked = Some P
           \<and> (1, node) \<in> set (nodes demo_blocked)
           \<and> sorted_victims demo_blocked P node = Some ts
           \<and> shortest_fitting_prefix demo_blocked node (requirements demo_winner_task) ts n
           \<and> [demo_running_task 0] = take n ts)"
proof -
  have "list_all (\<lambda>(k, n). length (C_k n) = length (R_total demo_blocked)) (nodes demo_blocked)"
    by (simp add: demo_blocked_def demo_node_def)
  with preemption_candidate_minimal [OF demo_candidate demo_no_fit demo_dims]
    demo_candidate demo_no_fit show ?thesis by blast
qed

section \<open>Direct placement\<close>

lemma nodes_push_new_event: "nodes (push_new_event sim t p) = nodes sim"
  by (simp add: push_new_event_def new_event_def)

lemma find_best_node_Some:
  assumes "find_best_node sim D = Some (k, n)"
  shows "(k, n) \<in> set (nodes sim) \<and> can_fit n D
       \<and> (\<forall>(k', n') \<in> set (nodes sim). can_fit n' D \<longrightarrow> k \<le> k')"
proof -
  define xs where "xs = sort_key fst (nodes sim)"
  define P where "P = (\<lambda>p :: int \<times> Node. can_fit (snd p) D)"
  have P: "(\<lambda>(node_key, node). can_fit node D) = P"
    by (simp add: P_def fun_eq_iff)
  from assms have "find P xs = Some (k, n)"
    by (simp add: find_best_node_def xs_def P)
  then have "\<exists>i<length xs. P (xs ! i) \<and> (k, n) = xs ! i \<and> (\<forall>j<i. \<not> P (xs ! j))"
    by (simp only: find_Some_iff)
  then obtain i where i: "i < length xs" "P (xs ! i)" "(k, n) = xs ! i"
    and before: "\<forall>j<i. \<not> P (xs ! j)"
    by (elim exE conjE)
  have setxs: "set xs = set (nodes sim)" by (simp add: xs_def)
  have mem: "(k, n) \<in> set (nodes sim)"
    using i(1,3) nth_mem [of i xs] setxs by simp
  have fit: "can_fit n D" using i(2) i(3) [symmetric] by (simp add: P_def)
  have srt: "sorted (map fst xs)" by (simp add: xs_def)
  have least: "k \<le> k'" if "(k', n') \<in> set (nodes sim)" "can_fit n' D" for k' n'
  proof -
    from that(1) setxs have "(k', n') \<in> set xs" by simp
    then obtain j where j: "j < length xs" "xs ! j = (k', n')"
      unfolding in_set_conv_nth by (elim exE conjE)
    have "P (xs ! j)" using j(2) that(2) by (simp add: P_def)
    with before have "\<not> j < i" by (elim allE [of _ j]) simp
    then have "i \<le> j" by simp
    with srt j(1) have "map fst xs ! i \<le> map fst xs ! j"
      by (intro sorted_nth_mono) simp_all
    moreover have "map fst xs ! i = k" using i(1) i(3) [symmetric] by simp
    moreover have "map fst xs ! j = k'" using j by simp
    ultimately show ?thesis by simp
  qed
  show ?thesis
  proof (intro conjI ballI)
    show "(k, n) \<in> set (nodes sim)" by (rule mem)
    show "can_fit n D" by (rule fit)
    fix p assume pm: "p \<in> set (nodes sim)"
    obtain k' n' where p: "p = (k', n')" by (cases p)
    show "case p of (k', n') \<Rightarrow> can_fit n' D \<longrightarrow> k \<le> k'"
      using least [of k' n'] pm p by simp
  qed
qed

lemma find_best_node_exists:
  assumes "(k0, n0) \<in> set (nodes sim)" "can_fit n0 D"
  shows "\<exists>k n. find_best_node sim D = Some (k, n)"
proof (cases "find_best_node sim D")
  case None
  with assms show ?thesis by (auto simp: find_best_node_def find_None_iff)
next
  case (Some p)
  then show ?thesis by (cases p) simp
qed

text \<open>
  C5. For an application visited in a round, with head pending task \<open>T\<close>: when some node
  satisfies \<open>C_k + D_i \<le> R_k\<close>, the visit ends the round with a direct placement of
  \<open>T\<close> on the fitting node of least key, without any result of the preemption evaluator
  (which the loop consults only in the branch where \<open>find_best_node\<close> gives nothing).
\<close>

theorem direct_placement_first_fit:
  assumes pend: "pending_tasks app = T # ts"
    and app: "map_of (apps sim) app_key = Some app"
    and dist: "distinct (map fst (nodes sim))"
    and some: "(k0, n0) \<in> set (nodes sim)" "can_fit n0 (requirements T)"
  shows "\<exists>node_key node sim' node'.
            (node_key, node) \<in> set (nodes sim) \<and> can_fit node (requirements T)
          \<and> (\<forall>(k', n') \<in> set (nodes sim). can_fit n' (requirements T) \<longrightarrow> node_key \<le> k')
          \<and> visit_apps sim ((app_key, app) # rest) = Inr (sim', DirectPlacement app_key node_key)
          \<and> map_of (nodes sim') node_key = Some node'
          \<and> C_k node' = vadd (C_k node) (requirements T)
          \<and> map_of (n_running_tasks node') (t_id T)
               = Some (T\<lparr>status := RUNNING, start_time := current_time sim, node_id := n_id node\<rparr>)"
proof -
  from find_best_node_exists [OF some] obtain k n where
    fb: "find_best_node sim (requirements T) = Some (k, n)" by blast
  from find_best_node_Some [OF fb] have mem: "(k, n) \<in> set (nodes sim)"
    and fit: "can_fit n (requirements T)"
    and least: "\<forall>(k', n') \<in> set (nodes sim). can_fit n' (requirements T) \<longrightarrow> k \<le> k'"
    by blast+
  have look: "map_of (nodes sim) k = Some n" by (rule map_of_is_SomeI [OF dist mem])
  let ?task = "T\<lparr>status := RUNNING, start_time := current_time sim, node_id := n_id n\<rparr>"
  let ?node' = "n\<lparr>C_k := vadd (C_k n) (requirements T),
                   n_running_tasks := AList.update (t_id T) ?task (n_running_tasks n)\<rparr>"
  have add: "add_task n ?task = Inr ?node'"
    using fit by (simp add: add_task_def)
  define sim' where "sim' = push_new_event
      (sim\<lparr>nodes := AList.update k ?node' (nodes sim),
           apps := AList.update app_key
             (update_dominant_share
                (app\<lparr>pending_tasks := ts, U_i := vadd (U_i app) (requirements T),
                     a_running_tasks := AList.update (t_id T) ?task (a_running_tasks app)\<rparr>)
                (R_total sim)) (apps sim),
           all_tasks := sync_task ?task (all_tasks sim)\<rparr>)
      (current_time sim + duration T) (TaskFinishEvent (t_id T) (a_id app) (n_id n))"
  have ph: "place_head sim app_key k = Inr sim'"
    unfolding place_head_def sim'_def by (simp add: app look pend add Let_def)
  have nodes': "nodes sim' = AList.update k ?node' (nodes sim)"
    unfolding sim'_def by (simp add: nodes_push_new_event)
  have "visit_apps sim ((app_key, app) # rest) = Inr (sim', DirectPlacement app_key k)"
    using pend fb ph by simp
  moreover have "map_of (nodes sim') k = Some ?node'"
    using nodes' by (simp add: update_conv')
  moreover have "map_of (n_running_tasks ?node') (t_id T) = Some ?task"
    by (simp add: update_conv')
  moreover have "C_k ?node' = vadd (C_k n) (requirements T)" by simp
  ultimately show ?thesis using mem fit least by blast
qed


lemma demo_fresh_fit:
  "pending_tasks (new_Application 1 [3] 10
       \<lparr>pending_tasks := [(demo_running_task 0)\<lparr>status := PENDING, start_time := -1, node_id := -1\<rparr>]\<rparr>)
     = (demo_running_task 0)\<lparr>status := PENDING, start_time := -1, node_id := -1\<rparr> # []
   \<and> map_of (apps demo_fresh) 1
       = Some (new_Application 1 [3] 10
           \<lparr>pending_tasks := [(demo_running_task 0)\<lparr>status := PENDING, start_time := -1, node_id := -1\<rparr>]\<rparr>)
   \<and> distinct (map fst (nodes demo_fresh))
   \<and> (1, new_Node 1 [10]) \<in> set (nodes demo_fresh)
   \<and> can_fit (new_Node 1 [10])
        (requirements ((demo_running_task 0)\<lparr>status := PENDING, start_time := -1, node_id := -1\<rparr>))"
  by code_simp

theorem direct_placement_first_fit_witness:
  "pending_tasks (new_Application 1 [3] 10
       \<lparr>pending_tasks := [(demo_running_task 0)\<lparr>status := PENDING, start_time := -1, node_id := -1\<rparr>]\<rparr>)
     = (demo_running_task 0)\<lparr>status := PENDING, start_time := -1, node_id := -1\<rparr> # []
   \<and> map_of (apps demo_fresh) 1
       = Some (new_Application 1 [3] 10
           \<lparr>pending_tasks := [(demo_running_task 0)\<lparr>status := PENDING, start_time := -1, node_id := -1\<rparr>]\<rparr>)
   \<and> distinct (map fst (nodes demo_fresh))
   \<and> (1, new_Node 1 [10]) \<in> set (nodes demo_fresh)
   \<and> can_fit (new_Node 1 [10])
        (requirements ((demo_running_task 0)\<lparr>status := PENDING, start_time := -1, node_id := -1\<rparr>))
   \<and> (\<exists>node_key sim'. visit_apps demo_fresh
          [(1, new_Application 1 [3] 10
           \<lparr>pending_tasks := [(demo_running_task 0)\<lparr>status := PENDING, start_time := -1, node_id := -1\<rparr>]\<rparr>)]
           = Inr (sim', DirectPlacement 1 node_key))"
proof -
  note h = demo_fresh_fit
  from direct_placement_first_fit [OF h [THEN conjunct1] h [THEN conjunct2, THEN conjunct1]
      h [THEN conjunct2, THEN conjunct2, THEN conjunct1]
      h [THEN conjunct2, THEN conjunct2, THEN conjunct2, THEN conjunct1]
      h [THEN conjunct2, THEN conjunct2, THEN conjunct2, THEN conjunct2], of "[]"]
  have "\<exists>node_key sim'. visit_apps demo_fresh
          [(1, new_Application 1 [3] 10
           \<lparr>pending_tasks := [(demo_running_task 0)\<lparr>status := PENDING, start_time := -1, node_id := -1\<rparr>]\<rparr>)]
           = Inr (sim', DirectPlacement 1 node_key)"
    by blast
  with h show ?thesis by blast
qed

section \<open>Applying a preemption\<close>

lemma length_vadd: "length (vadd a b) = min (length a) (length b)"
  by (simp add: vadd_def)

lemma length_vsub: "length (vsub a b) = min (length a) (length b)"
  by (simp add: vsub_def)

lemma length_zeros_like: "length (zeros_like v) = length v"
  by (simp add: zeros_like_def)












section \<open>A finish event that outlives a preemption\<close>

text \<open>
  C1 (the code departs from the claim). In the example cluster, task 0 is placed at time 0
  (its finish event for time 10 has counter 3), is preempted at time 1 and returns to the
  pending list, and is placed again on the same node at time 6. A preempted task stays in
  the global map, so when the first finish event is popped at time 10 the handler finds
  the task, finds it on the node, and ends it: the usage of the node and of the
  application drop and the task leaves the global and the running maps, four time units
  into a run of ten.
\<close>

theorem stale_finish_event_ends_rerun_task:
  "(case loop_prefix 4 10 (trigger_scheduler_run demo_sim False) of
      Inl e \<Rightarrow> False
    | Inr s4 \<Rightarrow>
        current_time s4 = 1
        \<and> map (pending_tasks \<circ> snd) (apps s4) = [[demo_preempted_task], []]
        \<and> demo_stale_event \<in> set (event_queue s4))
   \<and> (case loop_prefix 6 10 (trigger_scheduler_run demo_sim False) of
      Inl e \<Rightarrow> False
    | Inr s6 \<Rightarrow>
        (case heappop (event_queue s6) of
           None \<Rightarrow> False
         | Some (event, q) \<Rightarrow>
             event = demo_stale_event
             \<and> map_of (all_tasks s6) 0 = Some ((demo_running_task 0)\<lparr>start_time := 6\<rparr>)
             \<and> map (C_k \<circ> snd) (nodes s6) = [[9]]
             \<and> (case handle_task_finish_event (s6\<lparr>event_queue := q, current_time := time event\<rparr>) 0 1 1 of
                   Inl e \<Rightarrow> False
                 | Inr s7 \<Rightarrow>
                     s7 \<noteq> s6\<lparr>event_queue := q, current_time := time event\<rparr>
                     \<and> map (C_k \<circ> snd) (nodes s7) = [[6]]
                     \<and> map (U_i \<circ> snd) (apps s7) = [[6], [0]]
                     \<and> map (map fst \<circ> a_running_tasks \<circ> snd) (apps s7) = [[1, 2], []]
                     \<and> map_of (all_tasks s7) 0 = None)))"
  by code_simp

section \<open>The rounds of a scheduling cycle\<close>


lemma sum_list_update:
  fixes f :: "'v \<Rightarrow> 'a::comm_monoid_add"
  assumes "distinct (map fst d)" "map_of d k = Some v"
  shows "sum_list (map (\<lambda>(k, a). f a) (AList.update k v' d)) + f v
           = sum_list (map (\<lambda>(k, a). f a) d) + f v'"
  using assms
proof (induction d)
  case Nil
  then show ?case by simp
next
  case (Cons p d)
  obtain k0 v0 where p: "p = (k0, v0)" by (cases p)
  show ?case
  proof (cases "k0 = k")
    case True
    with Cons.prems p have "v0 = v" by simp
    with True p show ?thesis by (simp add: add.commute add.left_commute)
  next
    case False
    with Cons.prems p have "distinct (map fst d)" "map_of d k = Some v" by simp_all
    from Cons.IH [OF this] False p show ?thesis
      by (simp add: add.assoc)
  qed
qed



lemma apps_push_new_event: "apps (push_new_event sim t p) = apps sim"
  by (simp add: push_new_event_def new_event_def)

lemma total_pending_push_new_event: "total_pending (push_new_event sim t p) = total_pending sim"
  by (simp add: total_pending_def apps_push_new_event)
























section \<open>The order of the events\<close>


lemma event_lt_irrefl: "\<not> event_lt a a"
  by (simp add: event_lt_def)



lemma event_lt_asym: "event_lt a b \<Longrightarrow> \<not> event_lt b a"
  by (auto simp: event_lt_def split: if_splits)





lemma heappop_None: "heappop q = None \<longleftrightarrow> q = []"
  by (simp add: heappop_def Let_def split: list.splits)

lemma in_set_updateD: "x \<in> set (AList.update k v d) \<Longrightarrow> x = (k, v) \<or> x \<in> set d"
  by (induction d) (auto split: if_splits)

lemma in_set_deleteD: "x \<in> set (AList.delete k d) \<Longrightarrow> x \<in> set d"
  by (simp add: AList.delete_eq)

lemma place_head_InrD:
  assumes "place_head sim app_key node_key = Inr sim'"
  shows "\<exists>app node T rest.
           map_of (apps sim) app_key = Some app \<and> map_of (nodes sim) node_key = Some node
         \<and> pending_tasks app = T # rest
         \<and> can_fit node (requirements T)
         \<and> sim' = push_new_event
              (sim\<lparr>nodes := AList.update node_key
                       (node\<lparr>C_k := vadd (C_k node) (requirements T),
                             n_running_tasks := AList.update (t_id T)
                               (T\<lparr>status := RUNNING, start_time := current_time sim,
                                   node_id := n_id node\<rparr>) (n_running_tasks node)\<rparr>)
                       (nodes sim),
                    apps := AList.update app_key
                       (update_dominant_share
                          (app\<lparr>pending_tasks := rest,
                                U_i := vadd (U_i app) (requirements T),
                                a_running_tasks := AList.update (t_id T)
                                  (T\<lparr>status := RUNNING, start_time := current_time sim,
                                      node_id := n_id node\<rparr>) (a_running_tasks app)\<rparr>)
                          (R_total sim))
                       (apps sim),
                    all_tasks := sync_task
                       (T\<lparr>status := RUNNING, start_time := current_time sim,
                           node_id := n_id node\<rparr>) (all_tasks sim)\<rparr>)
              (current_time sim + duration T)
              (TaskFinishEvent (t_id T) (a_id app) (n_id node))"
proof -
  from assms obtain app where app: "map_of (apps sim) app_key = Some app"
    by (auto simp: place_head_def split: option.splits)
  from assms app obtain node where node: "map_of (nodes sim) node_key = Some node"
    by (auto simp: place_head_def split: option.splits)
  from assms app node obtain T rest where pend: "pending_tasks app = T # rest"
    by (auto simp: place_head_def split: list.splits)
  from assms app node pend have fit: "can_fit node (requirements T)"
    by (auto simp: place_head_def add_task_def Let_def split: if_splits)
  from assms app node pend fit show ?thesis
    by (simp add: place_head_def add_task_def Let_def)
qed

lemma ball_update:
  assumes "\<forall>(k, v) \<in> set d. P v" "P v'"
  shows "\<forall>(k, v) \<in> set (AList.update k0 v' d). P v"
  using assms in_set_updateD [of _ k0 v' d] by fastforce

lemma ball_delete:
  assumes "\<forall>(k, v) \<in> set d. P v"
  shows "\<forall>(k, v) \<in> set (AList.delete k0 d). P v"
  using assms in_set_deleteD [of _ k0 d] by fastforce

lemma ball_lookup:
  assumes "\<forall>(k, v) \<in> set d. P v" "map_of d k = Some v"
  shows "P v"
  using assms map_of_SomeD [of d k v] by fastforce




lemma queue_wf_frame:
  "event_queue sim' = event_queue sim \<Longrightarrow> event_counter sim' = event_counter sim \<Longrightarrow>
     queue_wf sim' = queue_wf sim"
  by (simp add: queue_wf_def)

lemma dispatching_frame:
  "event_queue sim' = event_queue sim \<Longrightarrow> current_time sim' = current_time sim \<Longrightarrow>
     dispatching ev sim' = dispatching ev sim"
  by (simp add: dispatching_def)


lemma preempt_victims_ConsD:
  assumes "preempt_victims sim nk pk (v # vs) F = Inr r"
  shows "\<exists>node node' papp.
           map_of (nodes sim) nk = Some node \<and> remove_task node v = Inr node'
         \<and> map_of (apps sim) pk = Some papp
         \<and> map_of (a_running_tasks papp) (t_id v) \<noteq> None
         \<and> preempt_victims
              (sim\<lparr>nodes := AList.update nk node' (nodes sim),
                    apps := AList.update pk
                      (papp\<lparr>a_running_tasks := AList.delete (t_id v) (a_running_tasks papp),
                             pending_tasks := v\<lparr>status := PENDING, start_time := -1, node_id := -1\<rparr>
                                               # pending_tasks papp\<rparr>) (apps sim),
                    all_tasks := sync_task (v\<lparr>status := PENDING, start_time := -1, node_id := -1\<rparr>)
                                   (all_tasks sim)\<rparr>)
              nk pk vs (vadd F (requirements v)) = Inr r"
proof -
  from assms obtain node where node: "map_of (nodes sim) nk = Some node"
    by (auto split: option.splits)
  from assms node obtain node' where rm: "remove_task node v = Inr node'"
    by (auto split: sum.splits)
  from assms node rm obtain papp where papp: "map_of (apps sim) pk = Some papp"
    by (auto split: option.splits)
  from assms node rm papp have inrun: "map_of (a_running_tasks papp) (t_id v) \<noteq> None"
    by (auto split: if_splits)
  from assms node rm papp inrun show ?thesis
    by (simp add: Let_def)
qed

lemma remove_task_InrD:
  "remove_task node v = Inr node' \<Longrightarrow>
     map_of (n_running_tasks node) (t_id v) \<noteq> None
     \<and> node' = node\<lparr>C_k := vsub (C_k node) (requirements v),
                     n_running_tasks := AList.delete (t_id v) (n_running_tasks node)\<rparr>"
  by (auto simp: remove_task_def split: if_splits)


lemma apply_preemption_InrD:
  assumes "apply_preemption sim app_key vs nk = Inr sim'"
  shows "\<exists>first rest sim1 F papp.
           vs = first # rest
         \<and> preempt_victims sim nk (app_id first) vs (zeros_like (R_total sim)) = Inr (sim1, F)
         \<and> map_of (apps sim1) (app_id first) = Some papp
         \<and> place_head
              (sim1\<lparr>apps := AList.update (app_id first)
                  (update_dominant_share (papp\<lparr>U_i := vsub (U_i papp) F\<rparr>) (R_total sim1))
                  (apps sim1)\<rparr>) app_key nk = Inr sim'"
proof -
  from assms obtain first rest where vs: "vs = first # rest"
    by (cases vs) (auto simp: apply_preemption_def)
  from assms vs obtain sim1 F where
    pv: "preempt_victims sim nk (app_id first) vs (zeros_like (R_total sim)) = Inr (sim1, F)"
    by (auto simp: apply_preemption_def Let_def split: option.splits sum.splits)
  from assms vs pv obtain papp where papp: "map_of (apps sim1) (app_id first) = Some papp"
    by (auto simp: apply_preemption_def Let_def split: option.splits sum.splits)
  from assms vs pv papp show ?thesis
    by (auto simp: apply_preemption_def Let_def split: option.splits sum.splits)
qed
















lemma foldl_update_ball:
  assumes "\<forall>x \<in> set xs. P x" "\<forall>(k, v) \<in> set d. P v"
  shows "\<forall>(k, v) \<in> set (foldl (\<lambda>d x. AList.update (key x) x d) d xs). P v"
  using assms
proof (induction xs arbitrary: d)
  case Nil
  then show ?case by simp
next
  case (Cons x xs)
  have "\<forall>(k, v) \<in> set (AList.update (key x) x d). P v"
    using Cons.prems by (intro ball_update) simp_all
  with Cons.IH [of "AList.update (key x) x d"] Cons.prems(1) show ?case by simp
qed





section \<open>Conservation of the usage\<close>

lemma dims_ok_alt:
  "dims_ok D sim \<longleftrightarrow>
     length (R_total sim) = D
     \<and> (\<forall>(k, n) \<in> set (nodes sim). node_dims_ok D n)
     \<and> (\<forall>(k, a) \<in> set (apps sim). app_dims_ok D a)
     \<and> (\<forall>(i, t) \<in> set (all_tasks sim). length (requirements t) = D)"
  by (simp add: dims_ok_def node_dims_ok_def app_dims_ok_def)

lemma conserved_iff: "conserved D sim \<longleftrightarrow> (\<forall>r < D. usage_of_apps sim r = usage_of_nodes sim r)"
  by (auto simp: conserved_def list_all_iff)

lemma nth_vadd: "r < length a \<Longrightarrow> r < length b \<Longrightarrow> vadd a b ! r = a ! r + b ! r"
  by (simp add: vadd_def)

lemma nth_vsub: "r < length a \<Longrightarrow> r < length b \<Longrightarrow> vsub a b ! r = a ! r - b ! r"
  by (simp add: vsub_def)

lemma nth_zeros_like: "r < length v \<Longrightarrow> zeros_like v ! r = 0"
  by (simp add: zeros_like_def)

lemma usage_of_apps_update:
  assumes "distinct (map fst (apps sim))" "map_of (apps sim) k = Some a" "apps sim' = AList.update k a' (apps sim)"
  shows "usage_of_apps sim' r + U_i a ! r = usage_of_apps sim r + U_i a' ! r"
  using sum_list_update [OF assms(1,2), of "\<lambda>a. U_i a ! r" a'] assms(3)
  by (simp add: usage_of_apps_def)

lemma usage_of_nodes_update:
  assumes "distinct (map fst (nodes sim))" "map_of (nodes sim) k = Some n" "nodes sim' = AList.update k n' (nodes sim)"
  shows "usage_of_nodes sim' r + C_k n ! r = usage_of_nodes sim r + C_k n' ! r"
  using sum_list_update [OF assms(1,2), of "\<lambda>n. C_k n ! r" n'] assms(3)
  by (simp add: usage_of_nodes_def)

lemma usage_of_apps_cong: "apps sim' = apps sim \<Longrightarrow> usage_of_apps sim' r = usage_of_apps sim r"
  by (simp add: usage_of_apps_def)

lemma usage_of_nodes_cong: "nodes sim' = nodes sim \<Longrightarrow> usage_of_nodes sim' r = usage_of_nodes sim r"
  by (simp add: usage_of_nodes_def)

lemma keys_update_present: "map_of d k = Some v \<Longrightarrow> map fst (AList.update k v' d) = map fst d"
  by (simp add: update_keys map_of_eq_None_iff [symmetric] del: map_of_eq_None_iff)

lemma sync_task_ball:
  assumes "\<forall>(i, t) \<in> set d. P t" "P task"
  shows "\<forall>(i, t) \<in> set (sync_task task d). P t"
proof (cases "map_of d (t_id task)")
  case None
  with assms(1) show ?thesis by (simp add: sync_task_def)
next
  case (Some x)
  have "\<forall>(i, t) \<in> set (AList.update (t_id task) task d). P t"
    using assms by (rule ball_update)
  with Some show ?thesis by (simp add: sync_task_def)
qed

lemma dims_ok_push: "dims_ok D (push_new_event sim t p) = dims_ok D sim"
  by (simp add: dims_ok_def push_new_event_def new_event_def)

lemma shape_ok_push: "shape_ok D (push_new_event sim t p) = shape_ok D sim"
  by (simp add: shape_ok_def dims_ok_push apps_push_new_event nodes_push_new_event)

lemma conserved_push: "conserved D (push_new_event sim t p) = conserved D sim"
  by (simp add: conserved_iff usage_of_apps_def usage_of_nodes_def apps_push_new_event nodes_push_new_event)

lemma place_head_conservation:
  assumes ph: "place_head sim app_key node_key = Inr sim'"
    and sh: "shape_ok D sim" and co: "conserved D sim"
  shows "shape_ok D sim' \<and> conserved D sim'"
proof -
  from place_head_InrD [OF ph] obtain app node T rest where
    app: "map_of (apps sim) app_key = Some app"
    and node: "map_of (nodes sim) node_key = Some node"
    and pend: "pending_tasks app = T # rest"
    and sim'0: "sim' = push_new_event
              (sim\<lparr>nodes := AList.update node_key
                       (node\<lparr>C_k := vadd (C_k node) (requirements T),
                             n_running_tasks := AList.update (t_id T)
                               (T\<lparr>status := RUNNING, start_time := current_time sim,
                                   node_id := n_id node\<rparr>) (n_running_tasks node)\<rparr>)
                       (nodes sim),
                    apps := AList.update app_key
                       (update_dominant_share
                          (app\<lparr>pending_tasks := rest,
                                U_i := vadd (U_i app) (requirements T),
                                a_running_tasks := AList.update (t_id T)
                                  (T\<lparr>status := RUNNING, start_time := current_time sim,
                                      node_id := n_id node\<rparr>) (a_running_tasks app)\<rparr>)
                          (R_total sim))
                       (apps sim),
                    all_tasks := sync_task
                       (T\<lparr>status := RUNNING, start_time := current_time sim,
                           node_id := n_id node\<rparr>) (all_tasks sim)\<rparr>)
              (current_time sim + duration T)
              (TaskFinishEvent (t_id T) (a_id app) (n_id node))"
    by blast
  define task where "task = T\<lparr>status := RUNNING, start_time := current_time sim, node_id := n_id node\<rparr>"
  define node' where "node' = node\<lparr>C_k := vadd (C_k node) (requirements T),
       n_running_tasks := AList.update (t_id T) task (n_running_tasks node)\<rparr>"
  define app' where "app' = update_dominant_share
       (app\<lparr>pending_tasks := rest, U_i := vadd (U_i app) (requirements T),
             a_running_tasks := AList.update (t_id T) task (a_running_tasks app)\<rparr>) (R_total sim)"
  define mid where "mid = sim\<lparr>nodes := AList.update node_key node' (nodes sim),
       apps := AList.update app_key app' (apps sim),
       all_tasks := sync_task task (all_tasks sim)\<rparr>"
  have sim': "sim' = push_new_event mid (current_time sim + duration T)
              (TaskFinishEvent (t_id T) (a_id app) (n_id node))"
    unfolding sim'0 mid_def app'_def node'_def task_def ..
  have dims: "dims_ok D sim" and da: "distinct (map fst (apps sim))"
    and dn: "distinct (map fst (nodes sim))" using sh by (simp_all add: shape_ok_def)
  have appok: "app_dims_ok D app"
    using dims app by (intro ball_lookup [of "apps sim" "app_dims_ok D" app_key]) (simp_all add: dims_ok_alt)
  have nodeok: "node_dims_ok D node"
    using dims node by (intro ball_lookup [of "nodes sim" "node_dims_ok D" node_key]) (simp_all add: dims_ok_alt)
  have lT: "length (requirements T) = D" using appok pend by (simp add: app_dims_ok_def)
  have lU: "length (U_i app) = D" using appok by (simp add: app_dims_ok_def)
  have lC: "length (C_k node) = D" using nodeok by (simp add: node_dims_ok_def)
  have U': "U_i app' = vadd (U_i app) (requirements T)"
    by (simp add: app'_def update_dominant_share_def Let_def)
  have C': "C_k node' = vadd (C_k node) (requirements T)" by (simp add: node'_def)
  have a': "app_dims_ok D app'"
    using appok pend lT by (simp add: app'_def app_dims_ok_def update_dominant_share_def Let_def length_vadd)
  have "\<forall>(i, t) \<in> set (AList.update (t_id T) task (n_running_tasks node)). length (requirements t) = D"
    using nodeok lT by (intro ball_update) (simp_all add: node_dims_ok_def task_def)
  then have n': "node_dims_ok D node'"
    using nodeok lT by (simp add: node'_def node_dims_ok_def length_vadd)
  have A: "\<forall>(k, a) \<in> set (AList.update app_key app' (apps sim)). app_dims_ok D a"
    using dims a' by (intro ball_update) (simp_all add: dims_ok_alt)
  have N: "\<forall>(k, n) \<in> set (AList.update node_key node' (nodes sim)). node_dims_ok D n"
    using dims n' by (intro ball_update) (simp_all add: dims_ok_alt)
  have TT: "\<forall>(i, t) \<in> set (sync_task task (all_tasks sim)). length (requirements t) = D"
    using dims lT by (intro sync_task_ball) (simp_all add: dims_ok_alt task_def)
  have "dims_ok D mid" using A N TT dims by (simp add: dims_ok_alt mid_def)
  moreover have "map fst (apps mid) = map fst (apps sim)"
    using app by (simp add: mid_def keys_update_present)
  moreover have "map fst (nodes mid) = map fst (nodes sim)"
    using node by (simp add: mid_def keys_update_present)
  ultimately have sh_mid: "shape_ok D mid" using da dn by (simp add: shape_ok_def)
  have "usage_of_apps mid r = usage_of_nodes mid r" if r: "r < D" for r
  proof -
    have "usage_of_apps mid r + U_i app ! r = usage_of_apps sim r + U_i app' ! r"
      by (rule usage_of_apps_update [OF da app]) (simp add: mid_def)
    moreover have "usage_of_nodes mid r + C_k node ! r = usage_of_nodes sim r + C_k node' ! r"
      by (rule usage_of_nodes_update [OF dn node]) (simp add: mid_def)
    moreover have "U_i app' ! r = U_i app ! r + requirements T ! r"
      using r lU lT by (simp add: U' nth_vadd)
    moreover have "C_k node' ! r = C_k node ! r + requirements T ! r"
      using r lC lT by (simp add: C' nth_vadd)
    moreover have "usage_of_apps sim r = usage_of_nodes sim r"
      using co r by (simp add: conserved_iff)
    ultimately show ?thesis by simp
  qed
  then have "conserved D mid" by (simp add: conserved_iff)
  with sh_mid show ?thesis unfolding sim' by (simp add: shape_ok_push conserved_push)
qed

lemma preempt_victims_usage:
  assumes "preempt_victims sim nk pk vs F = Inr (sim1, F1)"
    and "shape_ok D sim" and "length F = D"
    and "\<forall>v \<in> set vs. length (requirements v) = D"
  shows "shape_ok D sim1 \<and> length F1 = D \<and> R_total sim1 = R_total sim
       \<and> (\<forall>r < D. usage_of_apps sim1 r = usage_of_apps sim r
                  \<and> usage_of_nodes sim1 r + F1 ! r = usage_of_nodes sim r + F ! r)"
  using assms
proof (induction vs arbitrary: sim F)
  case Nil
  then show ?case by simp
next
  case (Cons v vs)
  from preempt_victims_ConsD [OF Cons.prems(1)] obtain node node' papp where
    node: "map_of (nodes sim) nk = Some node" and rm: "remove_task node v = Inr node'"
    and papp: "map_of (apps sim) pk = Some papp"
    and rec0: "preempt_victims
              (sim\<lparr>nodes := AList.update nk node' (nodes sim),
                    apps := AList.update pk
                      (papp\<lparr>a_running_tasks := AList.delete (t_id v) (a_running_tasks papp),
                             pending_tasks := v\<lparr>status := PENDING, start_time := -1, node_id := -1\<rparr>
                                               # pending_tasks papp\<rparr>) (apps sim),
                    all_tasks := sync_task (v\<lparr>status := PENDING, start_time := -1, node_id := -1\<rparr>)
                                   (all_tasks sim)\<rparr>)
              nk pk vs (vadd F (requirements v)) = Inr (sim1, F1)"
    by blast
  define v' where "v' = v\<lparr>status := PENDING, start_time := -1, node_id := -1\<rparr>"
  define app' where "app' = papp\<lparr>a_running_tasks := AList.delete (t_id v) (a_running_tasks papp),
       pending_tasks := v' # pending_tasks papp\<rparr>"
  define sim' where "sim' = sim\<lparr>nodes := AList.update nk node' (nodes sim),
       apps := AList.update pk app' (apps sim),
       all_tasks := sync_task v' (all_tasks sim)\<rparr>"
  have rec: "preempt_victims sim' nk pk vs (vadd F (requirements v)) = Inr (sim1, F1)"
    using rec0 unfolding sim'_def app'_def v'_def .
  have dims: "dims_ok D sim" and da: "distinct (map fst (apps sim))"
    and dn: "distinct (map fst (nodes sim))" using Cons.prems(2) by (simp_all add: shape_ok_def)
  have lv: "length (requirements v) = D" using Cons.prems(4) by simp
  have nodeok: "node_dims_ok D node"
    using dims node by (intro ball_lookup [of "nodes sim" "node_dims_ok D" nk]) (simp_all add: dims_ok_alt)
  have appok: "app_dims_ok D papp"
    using dims papp by (intro ball_lookup [of "apps sim" "app_dims_ok D" pk]) (simp_all add: dims_ok_alt)
  have lC: "length (C_k node) = D" using nodeok by (simp add: node_dims_ok_def)
  have C': "C_k node' = vsub (C_k node) (requirements v)"
    using remove_task_InrD [OF rm] by simp
  have "\<forall>(i, t) \<in> set (AList.delete (t_id v) (n_running_tasks node)). length (requirements t) = D"
    using nodeok by (intro ball_delete) (simp add: node_dims_ok_def)
  then have n': "node_dims_ok D node'"
    using remove_task_InrD [OF rm] nodeok lv by (simp add: node_dims_ok_def length_vsub)
  have a': "app_dims_ok D app'"
    using appok lv by (simp add: app'_def v'_def app_dims_ok_def)
  have A: "\<forall>(k, a) \<in> set (AList.update pk app' (apps sim)). app_dims_ok D a"
    using dims a' by (intro ball_update) (simp_all add: dims_ok_alt)
  have N: "\<forall>(k, n) \<in> set (AList.update nk node' (nodes sim)). node_dims_ok D n"
    using dims n' by (intro ball_update) (simp_all add: dims_ok_alt)
  have TT: "\<forall>(i, t) \<in> set (sync_task v' (all_tasks sim)). length (requirements t) = D"
    using dims lv by (intro sync_task_ball) (simp_all add: dims_ok_alt v'_def)
  have "dims_ok D sim'" using A N TT dims by (simp add: dims_ok_alt sim'_def)
  moreover have "map fst (apps sim') = map fst (apps sim)"
    using papp by (simp add: sim'_def keys_update_present)
  moreover have "map fst (nodes sim') = map fst (nodes sim)"
    using node by (simp add: sim'_def keys_update_present)
  ultimately have sh': "shape_ok D sim'" using da dn by (simp add: shape_ok_def)
  have lF': "length (vadd F (requirements v)) = D"
    using Cons.prems(3) lv by (simp add: length_vadd)
  have rest: "\<forall>v \<in> set vs. length (requirements v) = D" using Cons.prems(4) by simp
  from Cons.IH [OF rec sh' lF' rest] have ih1: "shape_ok D sim1" "length F1 = D"
    "R_total sim1 = R_total sim'"
    and ih2: "\<forall>r < D. usage_of_apps sim1 r = usage_of_apps sim' r
                  \<and> usage_of_nodes sim1 r + F1 ! r
                      = usage_of_nodes sim' r + vadd F (requirements v) ! r"
    by simp_all
  have "usage_of_apps sim1 r = usage_of_apps sim r
          \<and> usage_of_nodes sim1 r + F1 ! r = usage_of_nodes sim r + F ! r" if r: "r < D" for r
  proof -
    have "usage_of_apps sim' r + U_i papp ! r = usage_of_apps sim r + U_i app' ! r"
      by (rule usage_of_apps_update [OF da papp]) (simp add: sim'_def)
    then have ua: "usage_of_apps sim' r = usage_of_apps sim r" by (simp add: app'_def)
    have "usage_of_nodes sim' r + C_k node ! r = usage_of_nodes sim r + C_k node' ! r"
      by (rule usage_of_nodes_update [OF dn node]) (simp add: sim'_def)
    moreover have "C_k node' ! r = C_k node ! r - requirements v ! r"
      using r lC lv by (simp add: C' nth_vsub)
    moreover have "vadd F (requirements v) ! r = F ! r + requirements v ! r"
      using r Cons.prems(3) lv by (simp add: nth_vadd)
    ultimately show ?thesis using ih2 r ua by simp
  qed
  with ih1 show ?case by (simp add: sim'_def)
qed

lemma apply_preemption_conservation:
  assumes ap: "apply_preemption sim app_key vs nk = Inr sim'"
    and sh: "shape_ok D sim" and co: "conserved D sim"
    and lv: "\<forall>v \<in> set vs. length (requirements v) = D"
  shows "shape_ok D sim' \<and> conserved D sim'"
proof -
  from apply_preemption_InrD [OF ap] obtain first rest sim1 F papp where
    vs: "vs = first # rest"
    and pv: "preempt_victims sim nk (app_id first) vs (zeros_like (R_total sim)) = Inr (sim1, F)"
    and papp: "map_of (apps sim1) (app_id first) = Some papp"
    and ph0: "place_head
              (sim1\<lparr>apps := AList.update (app_id first)
                  (update_dominant_share (papp\<lparr>U_i := vsub (U_i papp) F\<rparr>) (R_total sim1))
                  (apps sim1)\<rparr>) app_key nk = Inr sim'"
    by blast
  define app' where "app' = update_dominant_share (papp\<lparr>U_i := vsub (U_i papp) F\<rparr>) (R_total sim1)"
  define sim2 where "sim2 = sim1\<lparr>apps := AList.update (app_id first) app' (apps sim1)\<rparr>"
  have ph: "place_head sim2 app_key nk = Inr sim'" using ph0 unfolding sim2_def app'_def .
  have lR: "length (R_total sim) = D" using sh by (simp add: shape_ok_def dims_ok_def)
  have lZ: "length (zeros_like (R_total sim)) = D" using lR by (simp add: length_zeros_like)
  from preempt_victims_usage [OF pv sh lZ lv] have sh1: "shape_ok D sim1" and lF: "length F = D"
    and us: "\<forall>r < D. usage_of_apps sim1 r = usage_of_apps sim r
                  \<and> usage_of_nodes sim1 r + F ! r
                      = usage_of_nodes sim r + zeros_like (R_total sim) ! r"
    by simp_all
  have dims1: "dims_ok D sim1" and da1: "distinct (map fst (apps sim1))"
    and dn1: "distinct (map fst (nodes sim1))" using sh1 by (simp_all add: shape_ok_def)
  have appok: "app_dims_ok D papp"
    using dims1 papp
    by (intro ball_lookup [of "apps sim1" "app_dims_ok D" "app_id first"]) (simp_all add: dims_ok_alt)
  have lU: "length (U_i papp) = D" using appok by (simp add: app_dims_ok_def)
  have U': "U_i app' = vsub (U_i papp) F"
    by (simp add: app'_def update_dominant_share_def Let_def)
  have a': "app_dims_ok D app'"
    using appok lF by (simp add: app'_def app_dims_ok_def update_dominant_share_def Let_def length_vsub)
  have A: "\<forall>(k, a) \<in> set (AList.update (app_id first) app' (apps sim1)). app_dims_ok D a"
    using dims1 a' by (intro ball_update) (simp_all add: dims_ok_alt)
  have "dims_ok D sim2" using A dims1 by (simp add: dims_ok_alt sim2_def)
  moreover have "map fst (apps sim2) = map fst (apps sim1)"
    using papp by (simp add: sim2_def keys_update_present)
  ultimately have sh2: "shape_ok D sim2" using da1 dn1 by (simp add: shape_ok_def sim2_def)
  have "usage_of_apps sim2 r = usage_of_nodes sim2 r" if r: "r < D" for r
  proof -
    have "usage_of_apps sim2 r + U_i papp ! r = usage_of_apps sim1 r + U_i app' ! r"
      by (rule usage_of_apps_update [OF da1 papp]) (simp add: sim2_def)
    moreover have "U_i app' ! r = U_i papp ! r - F ! r"
      using r lU lF by (simp add: U' nth_vsub)
    moreover have "zeros_like (R_total sim) ! r = 0" using r lR by (simp add: nth_zeros_like)
    moreover have "usage_of_nodes sim2 r = usage_of_nodes sim1 r"
      by (rule usage_of_nodes_cong) (simp add: sim2_def)
    moreover have "usage_of_apps sim r = usage_of_nodes sim r"
      using co r by (simp add: conserved_iff)
    moreover have "usage_of_apps sim1 r = usage_of_apps sim r"
      and "usage_of_nodes sim1 r + F ! r = usage_of_nodes sim r + zeros_like (R_total sim) ! r"
      using us r by simp_all
    ultimately show ?thesis by linarith
  qed
  then have co2: "conserved D sim2" by (simp add: conserved_iff)
  from place_head_conservation [OF ph sh2 co2] show ?thesis .
qed

lemma candidate_dims:
  assumes cand: "find_preemption_candidate sim W T = Inr (Some (vs, nk))"
    and d: "dims_ok D sim"
  shows "\<forall>v \<in> set vs. length (requirements v) = D"
proof
  fix v assume v: "v \<in> set vs"
  from find_preemption_candidate_SomeD [OF cand] obtain P node koszt where
    node: "(nk, node) \<in> set (nodes sim)"
    and nc: "node_candidate sim W (requirements T) P node = Inr (Some (koszt, vs))"
    by blast
  from node_candidate_victims [OF nc] v have "v \<in> snd ` set (n_running_tasks node)"
    by (auto simp: victim_tasks_on_def)
  then obtain i where iv: "(i, v) \<in> set (n_running_tasks node)" by auto
  from d node have "node_dims_ok D node" by (auto simp: dims_ok_alt)
  with iv show "length (requirements v) = D" by (auto simp: node_dims_ok_def)
qed

lemma visit_apps_conservation:
  assumes "visit_apps sim xs = Inr (sim', outcome)"
    and sh: "shape_ok D sim" and co: "conserved D sim"
  shows "shape_ok D sim' \<and> conserved D sim'"
  using assms(1)
proof (induction xs)
  case Nil
  with sh co show ?case by simp
next
  case (Cons p xs)
  obtain k app where p: "p = (k, app)" by (cases p)
  show ?case
  proof (cases "pending_tasks app")
    case Nil
    with Cons p show ?thesis by simp
  next
    case (Cons T ts)
    note pend = Cons
    show ?thesis
    proof (cases "find_best_node sim (requirements T)")
      case (Some kn)
      obtain nk node where kn: "kn = (nk, node)" by (cases kn)
      from Cons.prems p pend Some kn have ph: "place_head sim k nk = Inr sim'"
        by (auto split: sum.splits)
      from place_head_conservation [OF ph sh co] show ?thesis .
    next
      case None
      note nofit = None
      show ?thesis
      proof (cases "find_preemption_candidate sim app T")
        case (Inl e)
        with Cons.prems p pend nofit show ?thesis by simp
      next
        case (Inr cand)
        show ?thesis
        proof (cases cand)
          case None
          with Cons.prems Cons.IH p pend nofit Inr show ?thesis by simp
        next
          case (Some vn)
          obtain vs nk where vn: "vn = (vs, nk)" by (cases vn)
          show ?thesis
          proof (cases "vs = []")
            case True
            with Cons.prems Cons.IH p pend nofit Inr Some vn show ?thesis by simp
          next
            case False
            with Cons.prems p pend nofit Inr Some vn
            have ap: "apply_preemption sim k vs nk = Inr sim'"
              by (auto split: sum.splits)
            have c: "find_preemption_candidate sim app T = Inr (Some (vs, nk))"
              using Inr Some vn by simp
            have "dims_ok D sim" using sh by (simp add: shape_ok_def)
            from apply_preemption_conservation [OF ap sh co candidate_dims [OF c this]]
            show ?thesis .
          qed
        qed
      qed
    qed
  qed
qed

lemma run_round_conservation:
  assumes "run_round sim = Inr (sim', outcome)"
    and sh: "shape_ok D sim" and co: "conserved D sim"
  shows "shape_ok D sim' \<and> conserved D sim'"
proof (cases "filter (\<lambda>(app_key, app). pending_tasks app \<noteq> []) (apps sim) = []")
  case True
  with assms show ?thesis by (simp add: run_round_def)
next
  case False
  with assms(1) have "visit_apps sim (sort_key (\<lambda>(app_key, app). s_i app)
        (filter (\<lambda>(app_key, app). pending_tasks app \<noteq> []) (apps sim))) = Inr (sim', outcome)"
    by (simp add: run_round_def)
  from visit_apps_conservation [OF this sh co] show ?thesis .
qed

lemma scheduler_cycle_conservation:
  assumes "snd (scheduler_cycle_rounds fuel sim) = Inr sim'"
    and "shape_ok D sim" and "conserved D sim"
  shows "shape_ok D sim' \<and> conserved D sim'"
  using assms
proof (induction fuel arbitrary: sim)
  case 0
  then show ?case by simp
next
  case (Suc fuel)
  show ?case
  proof (cases "run_round sim")
    case (Inl e)
    with Suc.prems(1) show ?thesis by simp
  next
    case (Inr r)
    obtain sim1 outcome where r: "r = (sim1, outcome)" by (cases r)
    from run_round_conservation [OF Inr [unfolded r] Suc.prems(2,3)] have
      inv1: "shape_ok D sim1" "conserved D sim1" by simp_all
    show ?thesis
    proof (cases "alokacja_w_rundzie outcome")
      case False
      with Inr r Suc.prems(1) inv1 show ?thesis by simp
    next
      case True
      with Inr r Suc.prems(1) have "snd (scheduler_cycle_rounds fuel sim1) = Inr sim'"
        by (simp add: case_prod_beta)
      from Suc.IH [OF this inv1] show ?thesis .
    qed
  qed
qed

lemma submit_tasks_dims:
  "submit_tasks n k app sim = (app', sim') \<Longrightarrow> app_dims_ok D app \<Longrightarrow>
     \<forall>(i, t) \<in> set (all_tasks sim). length (requirements t) = D \<Longrightarrow>
     app_dims_ok D app' \<and> U_i app' = U_i app
     \<and> (\<forall>(i, t) \<in> set (all_tasks sim'). length (requirements t) = D)
     \<and> apps sim' = apps sim \<and> nodes sim' = nodes sim \<and> R_total sim' = R_total sim"
proof (induction n arbitrary: app sim)
  case 0
  then show ?case by simp
next
  case (Suc n)
  define task where "task = \<lparr>t_id = task_id_counter sim, app_id = k,
       requirements = proto_requirements app, duration = proto_duration app,
       status = PENDING, start_time = -1, node_id = -1\<rparr>"
  define app1 where "app1 = app\<lparr>pending_tasks := pending_tasks app @ [task]\<rparr>"
  define sim1 where "sim1 = sim\<lparr>task_id_counter := task_id_counter sim + 1,
       all_tasks := AList.update (task_id_counter sim) task (all_tasks sim)\<rparr>"
  from Suc.prems(1) have rec: "submit_tasks n k app1 sim1 = (app', sim')"
    by (simp add: Let_def app1_def sim1_def task_def)
  have lt: "length (requirements task) = D"
    using Suc.prems(2) by (simp add: task_def app_dims_ok_def)
  have a1: "app_dims_ok D app1"
    using Suc.prems(2) lt by (simp add: app1_def app_dims_ok_def)
  have "\<forall>(i, t) \<in> set (AList.update (task_id_counter sim) task (all_tasks sim)).
          length (requirements t) = D"
    using Suc.prems(3) lt by (intro ball_update) simp_all
  then have t1: "\<forall>(i, t) \<in> set (all_tasks sim1). length (requirements t) = D"
    by (simp add: sim1_def)
  from Suc.IH [OF rec a1 t1] show ?case by (simp add: sim1_def app1_def)
qed

lemma handle_submit_event_conservation:
  assumes "handle_submit_event sim k n = Inr sim'"
    and sh: "shape_ok D sim" and co: "conserved D sim"
  shows "shape_ok D sim' \<and> conserved D sim'"
proof -
  from assms(1) obtain app where app: "map_of (apps sim) k = Some app"
    by (auto simp: handle_submit_event_def split: option.splits)
  obtain app' sim1 where st: "submit_tasks (nat n) k app sim = (app', sim1)"
    by (cases "submit_tasks (nat n) k app sim")
  from assms(1) app st have sim': "sim' = sim1\<lparr>apps := AList.update k app' (apps sim1)\<rparr>"
    by (simp add: handle_submit_event_def)
  have dims: "dims_ok D sim" and da: "distinct (map fst (apps sim))"
    and dn: "distinct (map fst (nodes sim))" using sh by (simp_all add: shape_ok_def)
  have appok: "app_dims_ok D app"
    using dims app by (intro ball_lookup [of "apps sim" "app_dims_ok D" k]) (simp_all add: dims_ok_alt)
  have tt: "\<forall>(i, t) \<in> set (all_tasks sim). length (requirements t) = D"
    using dims by (simp add: dims_ok_alt)
  from submit_tasks_dims [OF st appok tt] have a': "app_dims_ok D app'" and U: "U_i app' = U_i app"
    and t1: "\<forall>(i, t) \<in> set (all_tasks sim1). length (requirements t) = D"
    and fr: "apps sim1 = apps sim" "nodes sim1 = nodes sim" "R_total sim1 = R_total sim"
    by simp_all
  have A: "\<forall>(k, a) \<in> set (AList.update k app' (apps sim)). app_dims_ok D a"
    using dims a' by (intro ball_update) (simp_all add: dims_ok_alt)
  have "dims_ok D sim'" using A t1 dims fr by (simp add: dims_ok_alt sim')
  moreover have "map fst (apps sim') = map fst (apps sim)"
    using app fr by (simp add: sim' keys_update_present)
  ultimately have sh': "shape_ok D sim'" using da dn fr by (simp add: shape_ok_def sim')
  have "usage_of_apps sim' r = usage_of_nodes sim' r" if r: "r < D" for r
  proof -
    have "usage_of_apps sim' r + U_i app ! r = usage_of_apps sim r + U_i app' ! r"
      by (rule usage_of_apps_update [OF da app]) (simp add: sim' fr)
    moreover have "usage_of_nodes sim' r = usage_of_nodes sim r"
      by (rule usage_of_nodes_cong) (simp add: sim' fr)
    moreover have "usage_of_apps sim r = usage_of_nodes sim r"
      using co r by (simp add: conserved_iff)
    ultimately show ?thesis using U by simp
  qed
  then have "conserved D sim'" by (simp add: conserved_iff)
  with sh' show ?thesis by simp
qed

lemma handle_task_finish_event_conservation:
  assumes "handle_task_finish_event sim tid k nk = Inr sim'"
    and sh: "shape_ok D sim" and co: "conserved D sim"
  shows "shape_ok D sim' \<and> conserved D sim'"
proof (cases "sim' = sim")
  case True
  with sh co show ?thesis by simp
next
  case False
  from assms(1) False obtain task where task: "map_of (all_tasks sim) tid = Some task"
    by (auto simp: handle_task_finish_event_def split: option.splits)
  from assms(1) False task obtain node where node: "map_of (nodes sim) nk = Some node"
    by (auto simp: handle_task_finish_event_def split: option.splits)
  from assms(1) False task node obtain app where app: "map_of (apps sim) k = Some app"
    by (auto simp: handle_task_finish_event_def split: option.splits)
  from assms(1) False task node app obtain node' where rm: "remove_task node task = Inr node'"
    by (auto simp: handle_task_finish_event_def split: sum.splits)
  define app' where "app' = update_dominant_share
       (app\<lparr>U_i := vsub (U_i app) (requirements task),
             a_running_tasks := AList.delete tid (a_running_tasks app)\<rparr>) (R_total sim)"
  from assms(1) task node app rm have sim': "sim' = sim\<lparr>nodes := AList.update nk node' (nodes sim),
       apps := AList.update k app' (apps sim), all_tasks := AList.delete tid (all_tasks sim)\<rparr>"
    by (auto simp: handle_task_finish_event_def Let_def app'_def split: if_splits)
  have dims: "dims_ok D sim" and da: "distinct (map fst (apps sim))"
    and dn: "distinct (map fst (nodes sim))" using sh by (simp_all add: shape_ok_def)
  have nodeok: "node_dims_ok D node"
    using dims node by (intro ball_lookup [of "nodes sim" "node_dims_ok D" nk]) (simp_all add: dims_ok_alt)
  have appok: "app_dims_ok D app"
    using dims app by (intro ball_lookup [of "apps sim" "app_dims_ok D" k]) (simp_all add: dims_ok_alt)
  have lt: "length (requirements task) = D"
    using dims task
    by (intro ball_lookup [of "all_tasks sim" "\<lambda>t. length (requirements t) = D" tid])
       (simp_all add: dims_ok_alt)
  have lC: "length (C_k node) = D" using nodeok by (simp add: node_dims_ok_def)
  have lU: "length (U_i app) = D" using appok by (simp add: app_dims_ok_def)
  have C': "C_k node' = vsub (C_k node) (requirements task)"
    using remove_task_InrD [OF rm] by simp
  have U': "U_i app' = vsub (U_i app) (requirements task)"
    by (simp add: app'_def update_dominant_share_def Let_def)
  have "\<forall>(i, t) \<in> set (AList.delete (t_id task) (n_running_tasks node)). length (requirements t) = D"
    using nodeok by (intro ball_delete) (simp add: node_dims_ok_def)
  then have n': "node_dims_ok D node'"
    using remove_task_InrD [OF rm] nodeok lt by (simp add: node_dims_ok_def length_vsub)
  have a': "app_dims_ok D app'"
    using appok lt by (simp add: app'_def app_dims_ok_def update_dominant_share_def Let_def length_vsub)
  have A: "\<forall>(k, a) \<in> set (AList.update k app' (apps sim)). app_dims_ok D a"
    using dims a' by (intro ball_update) (simp_all add: dims_ok_alt)
  have N: "\<forall>(k, n) \<in> set (AList.update nk node' (nodes sim)). node_dims_ok D n"
    using dims n' by (intro ball_update) (simp_all add: dims_ok_alt)
  have TT: "\<forall>(i, t) \<in> set (AList.delete tid (all_tasks sim)). length (requirements t) = D"
    using dims by (intro ball_delete) (simp add: dims_ok_alt)
  have "dims_ok D sim'" using A N TT dims by (simp add: dims_ok_alt sim')
  moreover have "map fst (apps sim') = map fst (apps sim)"
    using app by (simp add: sim' keys_update_present)
  moreover have "map fst (nodes sim') = map fst (nodes sim)"
    using node by (simp add: sim' keys_update_present)
  ultimately have sh': "shape_ok D sim'" using da dn by (simp add: shape_ok_def)
  have "usage_of_apps sim' r = usage_of_nodes sim' r" if r: "r < D" for r
  proof -
    have "usage_of_apps sim' r + U_i app ! r = usage_of_apps sim r + U_i app' ! r"
      by (rule usage_of_apps_update [OF da app]) (simp add: sim')
    moreover have "usage_of_nodes sim' r + C_k node ! r = usage_of_nodes sim r + C_k node' ! r"
      by (rule usage_of_nodes_update [OF dn node]) (simp add: sim')
    moreover have "U_i app' ! r = U_i app ! r - requirements task ! r"
      using r lU lt by (simp add: U' nth_vsub)
    moreover have "C_k node' ! r = C_k node ! r - requirements task ! r"
      using r lC lt by (simp add: C' nth_vsub)
    moreover have "usage_of_apps sim r = usage_of_nodes sim r"
      using co r by (simp add: conserved_iff)
    ultimately show ?thesis by linarith
  qed
  then have "conserved D sim'" by (simp add: conserved_iff)
  with sh' show ?thesis by simp
qed

lemma dispatch_conservation:
  assumes "dispatch fuel sim event = Inr sim'"
    and sh: "shape_ok D sim" and co: "conserved D sim"
  shows "shape_ok D sim' \<and> conserved D sim'"
proof (cases "payload event")
  case (SubmitEvent k n)
  with assms(1) have "handle_submit_event sim k n = Inr sim'" by (simp add: dispatch_def)
  from handle_submit_event_conservation [OF this sh co] show ?thesis .
next
  case (TaskFinishEvent tid k nk)
  with assms(1) have "handle_task_finish_event sim tid k nk = Inr sim'" by (simp add: dispatch_def)
  from handle_task_finish_event_conservation [OF this sh co] show ?thesis .
next
  case (SchedulerRunEvent b)
  with assms(1) have "snd (scheduler_cycle_rounds fuel sim) = Inr sim'"
    by (simp add: dispatch_def run_scheduler_cycle_def)
  from scheduler_cycle_conservation [OF this sh co] show ?thesis .
qed

lemma trigger_scheduler_run_conservation:
  "shape_ok D (trigger_scheduler_run sim b) = shape_ok D sim
   \<and> conserved D (trigger_scheduler_run sim b) = conserved D sim"
  by (simp add: trigger_scheduler_run_def shape_ok_push conserved_push)

lemma after_dispatch_conservation:
  "shape_ok D (after_dispatch sim ev) = shape_ok D sim
   \<and> conserved D (after_dispatch sim ev) = conserved D sim"
  by (simp add: after_dispatch_def trigger_scheduler_run_conservation)

lemma loop_body_conservation:
  assumes lb: "loop_body fuel sim = Inr (Some (ev, sim'))"
    and sh: "shape_ok D sim" and co: "conserved D sim"
  shows "shape_ok D sim' \<and> conserved D sim'"
proof -
  from lb obtain q' where pop: "heappop (event_queue sim) = Some (ev, q')"
    by (auto simp: loop_body_def split: option.splits sum.splits)
  define s1 where "s1 = sim\<lparr>event_queue := q', current_time := time ev\<rparr>"
  from lb pop obtain s2 where disp: "dispatch fuel s1 ev = Inr s2"
    and sim': "sim' = after_dispatch s2 ev"
    by (auto simp: loop_body_def s1_def split: sum.splits)
  have sh1: "shape_ok D s1" using sh by (simp add: shape_ok_def dims_ok_def s1_def)
  have co1: "conserved D s1"
    using co by (simp add: conserved_iff usage_of_apps_def usage_of_nodes_def s1_def)
  from dispatch_conservation [OF disp sh1 co1] show ?thesis
    unfolding sim' by (simp add: after_dispatch_conservation)
qed

lemma event_loop_conservation:
  assumes "event_loop n fuel sim = (dispatched, result)"
    and "shape_ok D sim" and "conserved D sim"
  shows "(\<forall>(ev, s) \<in> set dispatched. conserved D s)
       \<and> (\<forall>s. result = Inr s \<longrightarrow> conserved D s)"
  using assms
proof (induction n arbitrary: sim dispatched result)
  case 0
  then show ?case by auto
next
  case (Suc n)
  show ?case
  proof (cases "loop_body fuel sim")
    case (Inl e)
    with Suc.prems(1) show ?thesis by auto
  next
    case (Inr r)
    show ?thesis
    proof (cases r)
      case None
      with Inr Suc.prems show ?thesis by auto
    next
      case (Some es)
      obtain ev sim' where es: "es = (ev, sim')" by (cases es)
      obtain rest res where rec: "event_loop n fuel sim' = (rest, res)"
        by (cases "event_loop n fuel sim'")
      from Inr Some es rec Suc.prems(1) have disp: "dispatched = (ev, sim') # rest"
        and res: "result = res" by simp_all
      from loop_body_conservation [OF Inr [unfolded Some es] Suc.prems(2,3)] have
        inv: "shape_ok D sim'" "conserved D sim'" by simp_all
      from Suc.IH [OF rec inv] inv(2) disp res show ?thesis by simp
    qed
  qed
qed

lemma push_submissions_conservation:
  "shape_ok D (push_submissions subs sim) = shape_ok D sim
   \<and> conserved D (push_submissions subs sim) = conserved D sim"
proof (induction subs arbitrary: sim)
  case Nil
  then show ?case by simp
next
  case (Cons x subs)
  obtain t k n where x: "x = (t, k, n)" by (cases x)
  from Cons.IH [of "push_new_event sim t (SubmitEvent k n)"] x show ?case
    by (simp add: shape_ok_push conserved_push)
qed

lemma foldl_update_distinct:
  "distinct (map fst d) \<Longrightarrow> distinct (map fst (foldl (\<lambda>d x. AList.update (key x) x d) d xs))"
proof (induction xs arbitrary: d)
  case Nil
  then show ?case by simp
next
  case (Cons x xs)
  have "distinct (map fst (AList.update (key x) x d))"
    using Cons.prems by (rule distinct_update)
  from Cons.IH [OF this] show ?case by simp
qed

lemma length_foldl_vadd:
  "length v = D \<Longrightarrow> \<forall>x \<in> set xs. length x = D \<Longrightarrow> length (foldl vadd v xs) = D"
  by (induction xs arbitrary: v) (simp_all add: length_vadd)

lemma length_np_sum_axis0:
  "vs \<noteq> [] \<Longrightarrow> \<forall>x \<in> set vs. length x = D \<Longrightarrow> length (np_sum_axis0 vs) = D"
  by (cases vs) (simp_all add: np_sum_axis0_def length_foldl_vadd)

lemma sum_list_zero:
  fixes f :: "'a \<Rightarrow> real"
  shows "\<forall>x \<in> set xs. f x = 0 \<Longrightarrow> sum_list (map f xs) = 0"
  by (induction xs) simp_all

lemma Simulation_init_conservation:
  assumes fn: "\<forall>n \<in> set node_list. fresh_node D n"
    and fa: "\<forall>a \<in> set app_list. fresh_app D a"
    and ne: "node_list \<noteq> []"
  shows "shape_ok D (Simulation_init node_list app_list subs al be ep c0)
       \<and> conserved D (Simulation_init node_list app_list subs al be ep c0)"
proof -
  define s0 where "s0 = \<lparr>current_time = 0, event_queue = [],
        nodes = foldl (\<lambda>d n. AList.update (n_id n) n d) [] node_list,
        apps = foldl (\<lambda>d a. AList.update (a_id a) a d) [] app_list,
        R_total = np_sum_axis0 (map R_k node_list),
        task_id_counter = 0, all_tasks = [],
        ALPHA = al, BETA = be, EPSILON = ep, event_counter = c0\<rparr>"
  have FN: "\<forall>(k, v) \<in> set (nodes s0). fresh_node D v"
    unfolding s0_def using fn by (simp del: foldl_Cons) (intro foldl_update_ball, simp_all)
  have FA: "\<forall>(k, v) \<in> set (apps s0). fresh_app D v"
    unfolding s0_def using fa by (simp del: foldl_Cons) (intro foldl_update_ball, simp_all)
  have "length (R_total s0) = D"
    using fn ne by (simp add: s0_def) (intro length_np_sum_axis0, auto simp: fresh_node_def)
  moreover have "\<forall>(k, n) \<in> set (nodes s0). node_dims_ok D n"
    using FN by (auto simp: fresh_node_def node_dims_ok_def length_zeros_like)
  moreover have "\<forall>(k, a) \<in> set (apps s0). app_dims_ok D a"
    using FA by (auto simp: fresh_app_def app_dims_ok_def length_zeros_like)
  ultimately have "dims_ok D s0" by (simp add: dims_ok_alt) (simp add: s0_def)
  moreover have "distinct (map fst (apps s0))" "distinct (map fst (nodes s0))"
    unfolding s0_def by (simp_all add: foldl_update_distinct del: foldl_Cons)
  ultimately have sh0: "shape_ok D s0" by (simp add: shape_ok_def)
  have "usage_of_apps s0 r = usage_of_nodes s0 r" if r: "r < D" for r
  proof -
    have "\<forall>x \<in> set (apps s0). (case x of (k, a) \<Rightarrow> U_i a ! r) = 0"
      using FA r by (auto simp: fresh_app_def nth_zeros_like)
    then have "usage_of_apps s0 r = 0"
      unfolding usage_of_apps_def by (rule sum_list_zero)
    moreover have "\<forall>x \<in> set (nodes s0). (case x of (k, n) \<Rightarrow> C_k n ! r) = 0"
      using FN r by (auto simp: fresh_node_def nth_zeros_like)
    then have "usage_of_nodes s0 r = 0"
      unfolding usage_of_nodes_def by (rule sum_list_zero)
    ultimately show ?thesis by simp
  qed
  then have co0: "conserved D s0" by (simp add: conserved_iff)
  from push_submissions_conservation [of D subs s0] sh0 co0 show ?thesis
    by (simp add: Simulation_init_def s0_def)
qed

text \<open>
  C6. In a run from freshly constructed nodes and applications whose vectors all have
  \<open>D\<close> components, after every event dispatch (and in the final state, if the run ends
  without an exception) the componentwise sum of the \<open>U_i\<close> over the applications
  equals the componentwise sum of the \<open>C_k\<close> over the nodes. The lemmas above show
  that submission, direct placement, preemption and finish handling each preserve it.
\<close>

theorem usage_conserved_after_every_dispatch:
  assumes "\<forall>n \<in> set node_list. fresh_node D n"
    and "\<forall>a \<in> set app_list. fresh_app D a"
    and "node_list \<noteq> []"
    and "run n fuel (Simulation_init node_list app_list subs al be ep c0) = (dispatched, result)"
  shows "(\<forall>(ev, s) \<in> set dispatched. \<forall>r < D. usage_of_apps s r = usage_of_nodes s r)
       \<and> (\<forall>s. result = Inr s \<longrightarrow> (\<forall>r < D. usage_of_apps s r = usage_of_nodes s r))"
proof -
  let ?s = "Simulation_init node_list app_list subs al be ep c0"
  from Simulation_init_conservation [OF assms(1-3)] have "shape_ok D ?s" "conserved D ?s"
    by simp_all
  then have sh: "shape_ok D (trigger_scheduler_run ?s False)"
    and co: "conserved D (trigger_scheduler_run ?s False)"
    by (simp_all add: trigger_scheduler_run_conservation)
  have el: "event_loop n fuel (trigger_scheduler_run ?s False) = (dispatched, result)"
    using assms(4) by (simp add: run_def)
  from event_loop_conservation [OF el sh co] show ?thesis
    by (simp add: conserved_iff)
qed

lemma demo_run_usage:
  "map (\<lambda>(ev, s). (usage_of_apps s 0, usage_of_nodes s 0)) (fst (run 20 10 demo_sim))
     = [(0, 0), (9, 9), (9, 9), (10, 10), (6, 6), (9, 9), (6, 6), (3, 3), (0, 0),
        (0, 0), (0, 0), (0, 0)]"
  by code_simp

theorem usage_conserved_after_every_dispatch_witness:
  "list_all (fresh_node 1) [new_Node 1 [10]]
   \<and> list_all (fresh_app 1) [new_Application 1 [3] 10, new_Application 2 [4] 5]
   \<and> map (\<lambda>(ev, s). (usage_of_apps s 0, usage_of_nodes s 0)) (fst (run 20 10 demo_sim))
       = [(0, 0), (9, 9), (9, 9), (10, 10), (6, 6), (9, 9), (6, 6), (3, 3), (0, 0),
          (0, 0), (0, 0), (0, 0)]
   \<and> list_all (\<lambda>(ev, s). usage_of_apps s 0 = usage_of_nodes s 0) (fst (run 20 10 demo_sim))"
proof -
  have h1: "\<forall>n \<in> set [new_Node 1 [10]]. fresh_node 1 n"
    by (simp add: fresh_node_def new_Node_def)
  have h2: "\<forall>a \<in> set [new_Application 1 [3] 10, new_Application 2 [4] 5]. fresh_app 1 a"
    by (simp add: fresh_app_def new_Application_def)
  have h3: "[new_Node 1 [10]] \<noteq> []" by simp
  have h4: "run 20 10 (Simulation_init [new_Node 1 [10]]
                [new_Application 1 [3] 10, new_Application 2 [4] 5] [(0, 1, 3), (1, 2, 1)] 2 1 0 0)
             = (fst (run 20 10 demo_sim), snd (run 20 10 demo_sim))"
    by (simp add: demo_sim_def)
  from usage_conserved_after_every_dispatch [OF h1 h2 h3 h4] have
    "\<forall>(ev, s) \<in> set (fst (run 20 10 demo_sim)). \<forall>r < 1. usage_of_apps s r = usage_of_nodes s r"
    by (rule conjunct1)
  then have "list_all (\<lambda>(ev, s). usage_of_apps s 0 = usage_of_nodes s 0) (fst (run 20 10 demo_sim))"
    by (auto simp: list_all_iff)
  with h1 h2 demo_run_usage show ?thesis by (simp add: list_all_iff)
qed

end
